theory Spec2Isabelle
  imports Complex_Main
begin

section \<open>Data model\<close>

text \<open>
  A board is a JavaScript array of strings: \<open>""\<close> for an empty cell, \<open>"X"\<close> and \<open>"O"\<close>
  for the two markers. Indices are JavaScript numbers; the integer-valued ones are
  modelled as \<open>int\<close>, so that the sentinel \<open>-1\<close> of the source is a value of the model.
\<close>

type_synonym board = "string list"

type_synonym condition = "int \<times> int \<times> int"

text \<open>
  \<open>arr[i]\<close>: reading an array outside its range yields \<open>undefined\<close>, which is the
  value \<open>None\<close> here. \<open>undefined\<close> is never \<open>===\<close> to a string.
\<close>

definition arrayAt :: "'a list \<Rightarrow> int \<Rightarrow> 'a option" where
  "arrayAt xs i = (if 0 \<le> i \<and> i < int (length xs) then Some (xs ! nat i) else None)"

text \<open>The errors of the model: reading a property of \<open>undefined\<close> throws a TypeError.\<close>

datatype error = TypeError

text \<open>
  A move object \<open>{index, score}\<close>. The terminal results of \<open>minimax\<close> are objects
  \<open>{score}\<close> with no \<open>index\<close> property: reading it gives \<open>undefined\<close> (\<open>None\<close>).
\<close>

record move =
  index :: "int option"
  score :: int

section \<open>Binary64 numbers and the random draw\<close>

text \<open>
  JavaScript numbers are IEEE 754 binary64. The integers of this program (indices, depths,
  scores) are far below \<open>2^53\<close>, where binary64 arithmetic is exact, and are modelled as
  \<open>int\<close>. The one place where rounding shows is \<open>Math.random() * availableMoves.length\<close>:
  the product of two binary64 numbers is the exact product rounded to the nearest binary64
  number, ties to the even one.

  \<open>ulp x\<close> is the distance between neighbouring binary64 numbers at a positive \<open>x\<close> (53
  significant bits, and \<open>2^-1074\<close> in the subnormal range); \<open>binary64\<close> holds of the
  non-negative finite binary64 numbers; \<open>roundBinary64\<close> rounds a non-negative real below
  the overflow threshold.
\<close>

definition ulp :: "real \<Rightarrow> real" where
  "ulp x = 2 powr of_int (max \<lfloor>log 2 x\<rfloor> (- 1022) - 52)"

definition binary64 :: "real \<Rightarrow> bool" where
  "binary64 x \<longleftrightarrow> x = 0 \<or> (0 < x \<and> x < 2 ^ 1024 \<and> x / ulp x \<in> \<int>)"

definition roundEven :: "real \<Rightarrow> int" where
  "roundEven q =
     (let f = \<lfloor>q\<rfloor> in
      if q - of_int f < 1 / 2 then f
      else if 1 / 2 < q - of_int f then f + 1
      else if even f then f else f + 1)"

definition roundBinary64 :: "real \<Rightarrow> real" where
  "roundBinary64 x = (if x = 0 then 0 else of_int (roundEven (x / ulp x)) * ulp x)"

text \<open>
  What \<open>Math.random()\<close> returns: a binary64 number that is at least 0 and less than 1.
  \<open>drawValue\<close> is its value. \<open>drawOf m k\<close> is the draw \<open>m / 2^k\<close>, and 0 where that is
  not such a number.
\<close>

typedef draw = "{r :: real. binary64 r \<and> 0 \<le> r \<and> r < 1}"
  morphisms drawValue Draw
  by (rule exI[of _ 0]) (simp add: binary64_def)

definition drawOf :: "nat \<Rightarrow> nat \<Rightarrow> draw" where
  "drawOf m k = Draw (if m < 2 ^ k \<and> m < 2 ^ 53 \<and> k \<le> 1074 then real m / 2 ^ k else 0)"

instantiation draw :: zero
begin

definition zero_draw :: draw where
  "zero_draw = Draw 0"

instance ..

end

section \<open>The winning lines (logic.js, in src/unnamed/part_003)\<close>

definition winningConditions :: "condition list" where
  "winningConditions =
     [(0, 1, 2), (3, 4, 5), (6, 7, 8),
      (0, 3, 6), (1, 4, 7), (2, 5, 8),
      (0, 4, 8), (2, 4, 6)]"

section \<open>The search and the difficulty tiers (src/dist/template-source/src/js/ai/minimax.js)\<close>

definition aiMarker :: string where
  "aiMarker = ''O''"

definition humanMarker :: string where
  "humanMarker = ''X''"

text \<open>
  \<open>const scores = { 'O': 100, 'X': -100, 'draw': 0 }\<close>. The object has exactly these
  three keys and the source looks up no other.
\<close>

definition scores :: "string \<Rightarrow> int" where
  "scores k = (if k = ''O'' then 100 else if k = ''X'' then - 100 else 0)"

text \<open>
  \<open>board.map((val, index) => val === "" ? index : -1).filter(i => i !== -1)\<close>
\<close>

definition findEmptySpots :: "board \<Rightarrow> int list" where
  "findEmptySpots board =
     filter (\<lambda>i. i \<noteq> - 1)
       (map (\<lambda>(val, index). if val = '''' then index else - 1)
            (zip board (map int [0..<length board])))"

fun checkBoardWin :: "board \<Rightarrow> string \<Rightarrow> condition list \<Rightarrow> bool" where
  "checkBoardWin board marker [] = False"
| "checkBoardWin board marker ((a, b, c) # rest) =
     (if arrayAt board a = Some marker \<and> arrayAt board b = Some marker \<and> arrayAt board c = Some marker
      then True
      else checkBoardWin board marker rest)"

text \<open>\<open>Array.prototype.findIndex\<close>: the first position that satisfies the test, or \<open>-1\<close>.\<close>

fun findIndex :: "('a \<Rightarrow> bool) \<Rightarrow> 'a list \<Rightarrow> int" where
  "findIndex P [] = - 1"
| "findIndex P (x # xs) =
     (if P x then 0 else (let r = findIndex P xs in if r = - 1 then - 1 else r + 1))"

fun findStrategicMove :: "board \<Rightarrow> string \<Rightarrow> condition list \<Rightarrow> int" where
  "findStrategicMove board marker [] = - 1"
| "findStrategicMove board marker ((a, b, c) # rest) =
     (let cells = [arrayAt board a, arrayAt board b, arrayAt board c];
          emptyIndexInCondition = findIndex (\<lambda>cell. cell = Some '''') cells
      in if emptyIndexInCondition \<noteq> - 1
            \<and> length (filter (\<lambda>cell. cell = Some marker) cells) = 2
         then [a, b, c] ! nat emptyIndexInCondition
         else findStrategicMove board marker rest)"

text \<open>
  The body of the first loop of \<open>minimax\<close>: \<open>move.score = minimax(...).score\<close> throws a
  TypeError when the recursive call returned \<open>undefined\<close>, and an exception of the call
  itself propagates.
\<close>

definition scoredMove :: "int \<Rightarrow> error + move option \<Rightarrow> error + move" where
  "scoredMove i r =
     (case r of
        Inl e \<Rightarrow> Inl e
      | Inr None \<Rightarrow> Inl TypeError
      | Inr (Some m) \<Rightarrow> Inr \<lparr>index = Some i, score = score m\<rparr>)"

text \<open>The loop pushes the moves in order and stops at the first exception.\<close>

fun pushAll :: "(error + move) list \<Rightarrow> error + move list" where
  "pushAll [] = Inr []"
| "pushAll (r # rs) =
     (case r of
        Inl e \<Rightarrow> Inl e
      | Inr m \<Rightarrow> (case pushAll rs of Inl e \<Rightarrow> Inl e | Inr ms \<Rightarrow> Inr (m # ms)))"

text \<open>
  The two selection loops. \<open>bestScore\<close> starts at \<open>-Infinity\<close> (or \<open>Infinity\<close>), which
  is \<open>None\<close> here: every score is greater (less) than it. \<open>bestMove\<close> starts
  \<open>undefined\<close>.
\<close>

fun selectMax :: "int option \<Rightarrow> move option \<Rightarrow> move list \<Rightarrow> move option" where
  "selectMax bestScore bestMove [] = bestMove"
| "selectMax bestScore bestMove (m # ms) =
     (if (case bestScore of None \<Rightarrow> True | Some s \<Rightarrow> score m > s)
      then selectMax (Some (score m)) (Some m) ms
      else selectMax bestScore bestMove ms)"

fun selectMin :: "int option \<Rightarrow> move option \<Rightarrow> move list \<Rightarrow> move option" where
  "selectMin bestScore bestMove [] = bestMove"
| "selectMin bestScore bestMove (m # ms) =
     (if (case bestScore of None \<Rightarrow> True | Some s \<Rightarrow> score m < s)
      then selectMin (Some (score m)) (Some m) ms
      else selectMin bestScore bestMove ms)"

text \<open>
  \<open>nextBoard[index] = player\<close> writes at an index that comes from \<open>findEmptySpots\<close>,
  which is in range (lemma \<open>findEmptySpots_iff\<close>), so the write is a list update.
\<close>

function minimax :: "board \<Rightarrow> string \<Rightarrow> int \<Rightarrow> condition list \<Rightarrow> error + move option" where
  "minimax newBoard player depth wc =
     (if checkBoardWin newBoard humanMarker wc
        then Inr (Some \<lparr>index = None, score = scores ''X'' + depth\<rparr>)
      else if checkBoardWin newBoard aiMarker wc
        then Inr (Some \<lparr>index = None, score = scores ''O'' - depth\<rparr>)
      else if length (findEmptySpots newBoard) = 0
        then Inr (Some \<lparr>index = None, score = scores ''draw''\<rparr>)
      else
        (case pushAll
                (map (\<lambda>i.
                        if player = aiMarker
                        then scoredMove i (minimax (newBoard[nat i := player]) humanMarker (depth + 1) wc)
                        else scoredMove i (minimax (newBoard[nat i := player]) aiMarker (depth + 1) wc))
                     (findEmptySpots newBoard)) of
           Inl e \<Rightarrow> Inl e
         | Inr moves \<Rightarrow>
             if player = aiMarker
             then Inr (selectMax None None moves)
             else Inr (selectMin None None moves)))"
  by pat_completeness auto

text \<open>
  \<open>getBestMove(board, difficulty)\<close>. The winning conditions are the module variable set by
  \<open>init\<close>, a parameter here. \<open>rnd\<close> is the value that \<open>Math.random()\<close> returns when the
  fallback is reached; its product with the length is the binary64 product, and
  \<open>Math.floor\<close> of a binary64 number is exact. The result is a number, or \<open>undefined\<close>
  (\<open>None\<close>) when the property or array element read does not exist.
\<close>

definition getBestMove :: "draw \<Rightarrow> board \<Rightarrow> string \<Rightarrow> condition list \<Rightarrow> error + int option" where
  "getBestMove rnd board difficulty wc =
     (let availableMoves = findEmptySpots board in
      if length availableMoves = 0 then Inr (Some (- 1))
      else
        let opponentMarker = ''X'' in
        if difficulty = ''hard''
        then (case minimax board aiMarker 0 wc of
                Inl e \<Rightarrow> Inl e
              | Inr None \<Rightarrow> Inl TypeError
              | Inr (Some m) \<Rightarrow> Inr (index m))
        else
          let winningMove = findStrategicMove board aiMarker wc in
          if winningMove \<noteq> - 1 then Inr (Some winningMove)
          else
            let blockingMove = findStrategicMove board opponentMarker wc in
            if blockingMove \<noteq> - 1 \<and> difficulty = ''medium'' then Inr (Some blockingMove)
            else if arrayAt board 4 = Some '''' \<and> difficulty = ''medium'' then Inr (Some 4)
            else Inr (arrayAt availableMoves
                        \<lfloor>roundBinary64 (drawValue rnd * real (length availableMoves))\<rfloor>))"

section \<open>The board (GameBoard, in src/src/js/game/board.js)\<close>

text \<open>
  \<open>markCell(index, playerMarker)\<close> on the module's private board: the board is passed in
  and returned with the result (\<open>idx\<close> is the source's \<open>index\<close>). The write happens only
  after the same index was read as the empty string, so it is in range.
\<close>

definition markCell :: "board \<Rightarrow> int \<Rightarrow> string \<Rightarrow> bool \<times> board" where
  "markCell board idx playerMarker =
     (if arrayAt board idx = Some ''''
      then (True, board[nat idx := playerMarker])
      else (False, board))"

section \<open>The result check (checkResult of logic.js, in src/unnamed/part_003)\<close>

text \<open>
  What \<open>checkResult\<close> reports to the statistics and the display: a win of a marker on a
  line, or a draw.
\<close>

datatype outcome = Won string condition | Drawn

text \<open>
  The win loop: \<open>currentBoard[a] && currentBoard[a] === currentBoard[b] &&
  currentBoard[a] === currentBoard[c]\<close>. \<open>undefined\<close> and the empty string are falsy.
\<close>

fun checkWin :: "board \<Rightarrow> condition list \<Rightarrow> (string \<times> condition) option" where
  "checkWin currentBoard [] = None"
| "checkWin currentBoard ((a, b, c) # rest) =
     (case arrayAt currentBoard a of
        None \<Rightarrow> checkWin currentBoard rest
      | Some winner \<Rightarrow>
          if winner \<noteq> '''' \<and> arrayAt currentBoard b = Some winner
             \<and> arrayAt currentBoard c = Some winner
          then Some (winner, (a, b, c))
          else checkWin currentBoard rest)"

text \<open>
  \<open>checkResult()\<close>: the value returned, the new \<open>isGameActive\<close> and the outcome
  reported, if any.
\<close>

definition checkResult :: "board \<Rightarrow> bool \<Rightarrow> bool \<times> bool \<times> outcome option" where
  "checkResult currentBoard isGameActive =
     (case checkWin currentBoard winningConditions of
        Some (winner, condition) \<Rightarrow> (True, False, Some (Won winner condition))
      | None \<Rightarrow>
          if '''' \<notin> set currentBoard
          then (True, False, Some Drawn)
          else (False, isGameActive, None))"

section \<open>Forced wins: the game-theoretic reference\<close>

text \<open>
  \<open>forcesWin who board player\<close>: marker \<open>who\<close> can force a win of the game from \<open>board\<close>
  with \<open>player\<close> to move, whatever the other side plays. The game is over when a marker has a
  line or no cell is empty; the two markers move in turns. The line test and the list of
  empty cells are the program's, characterised by the lemmas \<open>checkBoardWin_iff\<close> and
  \<open>findEmptySpots_iff\<close>.
\<close>

definition otherMarker :: "string \<Rightarrow> string" where
  "otherMarker p = (if p = aiMarker then humanMarker else aiMarker)"

function forcesWin :: "string \<Rightarrow> board \<Rightarrow> string \<Rightarrow> bool" where
  "forcesWin who board player =
     (if checkBoardWin board humanMarker winningConditions then who = humanMarker
      else if checkBoardWin board aiMarker winningConditions then who = aiMarker
      else if findEmptySpots board = [] then False
      else if player = who
        then list_ex (\<lambda>i. forcesWin who (board[nat i := player]) (otherMarker player))
               (findEmptySpots board)
        else list_all (\<lambda>i. forcesWin who (board[nat i := player]) (otherMarker player))
               (findEmptySpots board))"
  by pat_completeness auto

section \<open>Projections used in the statements\<close>

text \<open>
  The score and the index of the object that \<open>minimax\<close> returns (lemma \<open>minimax_total\<close>:
  it always returns one), and the list \<open>moves\<close> that a non-terminal node collects.
\<close>

definition minimaxScore :: "board \<Rightarrow> string \<Rightarrow> int \<Rightarrow> condition list \<Rightarrow> int" where
  "minimaxScore b p d wc = (case minimax b p d wc of Inr (Some m) \<Rightarrow> score m | _ \<Rightarrow> 0)"

definition minimaxIndex :: "board \<Rightarrow> string \<Rightarrow> int \<Rightarrow> condition list \<Rightarrow> int option" where
  "minimaxIndex b p d wc = (case minimax b p d wc of Inr (Some m) \<Rightarrow> index m | _ \<Rightarrow> None)"

definition childMoves :: "board \<Rightarrow> string \<Rightarrow> int \<Rightarrow> condition list \<Rightarrow> move list" where
  "childMoves b p d wc =
     map (\<lambda>i. \<lparr>index = Some i, score = minimaxScore (b[nat i := p]) (otherMarker p) (d + 1) wc\<rparr>)
         (findEmptySpots b)"

definition negMove :: "move \<Rightarrow> move" where
  "negMove m = m\<lparr>score := - score m\<rparr>"

section \<open>The specification's reading of the line tests\<close>

text \<open>
  A marker has a completed winning line: one of the eight lines holds the marker in all
  three cells.
\<close>

definition completedLine :: "board \<Rightarrow> string \<Rightarrow> bool" where
  "completedLine board marker =
     (\<exists>(a, b, c) \<in> set winningConditions.
        arrayAt board a = Some marker \<and> arrayAt board b = Some marker
        \<and> arrayAt board c = Some marker)"

text \<open>
  The specification's \<open>findTwoInARowGap\<close>: for each winning line in order, if exactly one
  cell is empty and the other two equal the marker, the empty cell's index; the first
  match wins.
\<close>

definition lineGap :: "board \<Rightarrow> string \<Rightarrow> condition \<Rightarrow> int option" where
  "lineGap board marker l =
     (case l of (a, b, c) \<Rightarrow>
        if arrayAt board a = Some '''' \<and> arrayAt board b = Some marker
           \<and> arrayAt board c = Some marker then Some a
        else if arrayAt board b = Some '''' \<and> arrayAt board a = Some marker
           \<and> arrayAt board c = Some marker then Some b
        else if arrayAt board c = Some '''' \<and> arrayAt board a = Some marker
           \<and> arrayAt board b = Some marker then Some c
        else None)"

fun findTwoInARowGap :: "board \<Rightarrow> string \<Rightarrow> condition list \<Rightarrow> int option" where
  "findTwoInARowGap board marker [] = None"
| "findTwoInARowGap board marker (l # ls) =
     (case lineGap board marker l of
        Some i \<Rightarrow> Some i
      | None \<Rightarrow> findTwoInARowGap board marker ls)"

section \<open>Evaluating forced wins on a board of nine cells\<close>

text \<open>
  Devices of the proofs, not of the program: the eight line tests written out on nine
  cells, and the search through the successor boards of a position that stops at the first
  decisive move. Each entry pairs the cell that a move fills with the board after the move.
\<close>

definition line9 :: "string \<Rightarrow> board \<Rightarrow> bool" where
  "line9 m cs =
     (if cs ! 0 = m \<and> cs ! 1 = m \<and> cs ! 2 = m then True
      else if cs ! 3 = m \<and> cs ! 4 = m \<and> cs ! 5 = m then True
      else if cs ! 6 = m \<and> cs ! 7 = m \<and> cs ! 8 = m then True
      else if cs ! 0 = m \<and> cs ! 3 = m \<and> cs ! 6 = m then True
      else if cs ! 1 = m \<and> cs ! 4 = m \<and> cs ! 7 = m then True
      else if cs ! 2 = m \<and> cs ! 5 = m \<and> cs ! 8 = m then True
      else if cs ! 0 = m \<and> cs ! 4 = m \<and> cs ! 8 = m then True
      else cs ! 2 = m \<and> cs ! 4 = m \<and> cs ! 6 = m)"

fun anyMove :: "string \<Rightarrow> string \<Rightarrow> (string \<times> board) list \<Rightarrow> bool" where
  "anyMove who q [] = False"
| "anyMove who q ((c, nb) # rest) =
     (if c = '''' then (if forcesWin who nb q then True else anyMove who q rest)
      else anyMove who q rest)"

fun everyMove :: "string \<Rightarrow> string \<Rightarrow> bool \<Rightarrow> (string \<times> board) list \<Rightarrow> bool" where
  "everyMove who q found [] = found"
| "everyMove who q found ((c, nb) # rest) =
     (if c = '''' then (if forcesWin who nb q then everyMove who q True rest else False)
      else everyMove who q found rest)"

text \<open>The successors of a position, the centre first, then the corners, then the edges.\<close>

definition moves9 :: "string \<Rightarrow> board \<Rightarrow> (string \<times> board) list" where
  "moves9 p cs =
     [(cs ! 4, cs[4 := p]), (cs ! 0, cs[0 := p]), (cs ! 2, cs[2 := p]), (cs ! 6, cs[6 := p]),
      (cs ! 8, cs[8 := p]), (cs ! 1, cs[1 := p]), (cs ! 3, cs[3 := p]), (cs ! 5, cs[5 := p]),
      (cs ! 7, cs[7 := p])]"

section \<open>The search on a store of arrays\<close>

text \<open>
  JavaScript arrays are objects: \<open>minimax\<close> receives a reference to the caller's board, and
  \<open>[...newBoard]\<close> allocates a new array. To state that the caller's board is not written,
  the search is modelled a second time on an explicit store: a list of arrays, a reference
  being a position in it, and an allocation appending to it. The natural number in front is
  fuel, one unit for each nested call; \<open>None\<close> means that the fuel ran out.
\<close>

type_synonym store = "board list"

text \<open>
  The first loop of \<open>minimax\<close>: for each index, copy the board into a new array, write the
  player's marker into the copy, and call the search on the copy (\<open>call\<close>, which is
  \<open>minimax\<close> with the opposite marker and \<open>depth + 1\<close>).
\<close>

fun movesH ::
    "(store \<Rightarrow> nat \<Rightarrow> ((error + move option) \<times> store) option)
     \<Rightarrow> store \<Rightarrow> nat \<Rightarrow> string \<Rightarrow> int list \<Rightarrow> ((error + move list) \<times> store) option" where
  "movesH call h newBoard player [] = Some (Inr [], h)"
| "movesH call h newBoard player (i # rest) =
     (let nextBoard = length h;
          h1 = h @ [h ! newBoard];
          h2 = h1[nextBoard := (h1 ! nextBoard)[nat i := player]]
      in case call h2 nextBoard of
           None \<Rightarrow> None
         | Some (r, h3) \<Rightarrow>
             (case scoredMove i r of
                Inl e \<Rightarrow> Some (Inl e, h3)
              | Inr m \<Rightarrow>
                  (case movesH call h3 newBoard player rest of
                     None \<Rightarrow> None
                   | Some (Inl e, h4) \<Rightarrow> Some (Inl e, h4)
                   | Some (Inr ms, h4) \<Rightarrow> Some (Inr (m # ms), h4))))"

primrec minimaxH ::
    "nat \<Rightarrow> store \<Rightarrow> nat \<Rightarrow> string \<Rightarrow> int \<Rightarrow> condition list
     \<Rightarrow> ((error + move option) \<times> store) option" where
  "minimaxH 0 h newBoard player depth wc = None"
| "minimaxH (Suc n) h newBoard player depth wc =
     (if checkBoardWin (h ! newBoard) humanMarker wc
        then Some (Inr (Some \<lparr>index = None, score = scores ''X'' + depth\<rparr>), h)
      else if checkBoardWin (h ! newBoard) aiMarker wc
        then Some (Inr (Some \<lparr>index = None, score = scores ''O'' - depth\<rparr>), h)
      else if length (findEmptySpots (h ! newBoard)) = 0
        then Some (Inr (Some \<lparr>index = None, score = scores ''draw''\<rparr>), h)
      else
        (case movesH
                (\<lambda>h' nextBoard.
                   if player = aiMarker
                   then minimaxH n h' nextBoard humanMarker (depth + 1) wc
                   else minimaxH n h' nextBoard aiMarker (depth + 1) wc)
                h newBoard player (findEmptySpots (h ! newBoard)) of
           None \<Rightarrow> None
         | Some (Inl e, h') \<Rightarrow> Some (Inl e, h')
         | Some (Inr moves, h') \<Rightarrow>
             Some (if player = aiMarker
                   then Inr (selectMax None None moves)
                   else Inr (selectMin None None moves), h')))"

text \<open>
  \<open>getBestMove\<close> on the store: only the hard tier calls the search; the other tiers read
  the board and allocate no board.
\<close>

definition getBestMoveH ::
    "nat \<Rightarrow> draw \<Rightarrow> store \<Rightarrow> nat \<Rightarrow> string \<Rightarrow> condition list
     \<Rightarrow> ((error + int option) \<times> store) option" where
  "getBestMoveH n rnd h board difficulty wc =
     (let availableMoves = findEmptySpots (h ! board) in
      if length availableMoves = 0 then Some (Inr (Some (- 1)), h)
      else
        let opponentMarker = ''X'' in
        if difficulty = ''hard''
        then (case minimaxH n h board aiMarker 0 wc of
                None \<Rightarrow> None
              | Some (r, h') \<Rightarrow>
                  Some (case r of
                          Inl e \<Rightarrow> Inl e
                        | Inr None \<Rightarrow> Inl TypeError
                        | Inr (Some m) \<Rightarrow> Inr (index m), h'))
        else
          let winningMove = findStrategicMove (h ! board) aiMarker wc in
          if winningMove \<noteq> - 1 then Some (Inr (Some winningMove), h)
          else
            let blockingMove = findStrategicMove (h ! board) opponentMarker wc in
            if blockingMove \<noteq> - 1 \<and> difficulty = ''medium'' then Some (Inr (Some blockingMove), h)
            else if arrayAt (h ! board) 4 = Some '''' \<and> difficulty = ''medium''
            then Some (Inr (Some 4), h)
            else Some (Inr (arrayAt availableMoves
                              \<lfloor>roundBinary64 (drawValue rnd * real (length availableMoves))\<rfloor>), h))"

section \<open>Empty cells\<close>

lemma zip_index: "zip b (map int [0..<length b]) = map (\<lambda>k. (b ! k, int k)) [0..<length b]"
  by (rule nth_equalityI) auto

lemma findEmptySpots_conv:
  "findEmptySpots b = map int (filter (\<lambda>k. b ! k = '''') [0..<length b])"
  unfolding findEmptySpots_def zip_index
  by (auto simp: filter_map comp_def intro!: arg_cong[where f="map int"] filter_cong)

lemma findEmptySpots_iff:
  "i \<in> set (findEmptySpots b) \<longleftrightarrow> 0 \<le> i \<and> i < int (length b) \<and> b ! nat i = ''''"
proof
  assume "i \<in> set (findEmptySpots b)"
  then obtain k where "i = int k" "k < length b" "b ! k = ''''"
    by (auto simp: findEmptySpots_conv)
  then show "0 \<le> i \<and> i < int (length b) \<and> b ! nat i = ''''" by simp
next
  assume h: "0 \<le> i \<and> i < int (length b) \<and> b ! nat i = ''''"
  then have "nat i \<in> set (filter (\<lambda>k. b ! k = '''') [0..<length b])" by auto
  then have "int (nat i) \<in> set (findEmptySpots b)"
    unfolding findEmptySpots_conv by (simp only: set_map image_eqI)
  with h show "i \<in> set (findEmptySpots b)" by simp
qed

lemma findEmptySpots_nat:
  assumes "i \<in> set (findEmptySpots b)"
  shows "0 \<le> i" and "nat i < length b" and "b ! nat i = ''''"
  using assms by (auto simp: findEmptySpots_iff)

lemma length_findEmptySpots:
  "length (findEmptySpots b) = length (filter (\<lambda>c. c = '''') b)"
proof -
  have "length (filter (\<lambda>c. c = '''') (map (nth b) [0..<length b]))
        = length (filter (\<lambda>k. b ! k = '''') [0..<length b])"
    by (simp only: filter_map comp_def length_map)
  then show ?thesis by (simp add: findEmptySpots_conv map_nth)
qed

lemma findEmptySpots_Nil: "findEmptySpots b = [] \<longleftrightarrow> '''' \<notin> set b"
proof -
  have "findEmptySpots b = [] \<longleftrightarrow> length (filter (\<lambda>c. c = '''') b) = 0"
    using length_findEmptySpots[of b] by (simp only: length_0_conv[symmetric])
  also have "\<dots> \<longleftrightarrow> '''' \<notin> set b"
    by (auto simp: filter_empty_conv)
  finally show ?thesis .
qed

lemma length_filter_update:
  assumes "k < length b" "P (b ! k)" "\<not> P v"
  shows "Suc (length (filter P (b[k := v]))) = length (filter P b)"
proof -
  have "b = take k b @ b ! k # drop (Suc k) b"
    using assms(1) by (simp add: id_take_nth_drop)
  then have "length (filter P b) = length (filter P (take k b @ b ! k # drop (Suc k) b))"
    by simp
  moreover have "b[k := v] = take k b @ v # drop (Suc k) b"
    using assms(1) by (simp add: upd_conv_take_nth_drop)
  ultimately show ?thesis using assms(2,3) by simp
qed

lemma empties_decrease:
  assumes "i \<in> set (findEmptySpots b)" "p \<noteq> ''''"
  shows "Suc (length (findEmptySpots (b[nat i := p]))) = length (findEmptySpots b)"
  using findEmptySpots_nat(2,3)[OF assms(1)] assms(2)
    length_filter_update[of "nat i" b "\<lambda>c. c = ''''" p]
  by (simp add: length_findEmptySpots)

lemma empties_same:
  assumes "i \<in> set (findEmptySpots b)"
  shows "b[nat i := ''''] = b"
  using findEmptySpots_nat(2,3)[OF assms] by (simp add: list_update_same_conv)

section \<open>The search terminates\<close>

text \<open>
  Each call on a marker other than the empty string fills one more cell; a call whose
  player is the empty string leaves the board as it is and hands over to a real marker.
\<close>

termination minimax
proof (relation "measure (\<lambda>(b, p, d, wc). 2 * length (findEmptySpots b) + (if p = '''' then 1 else 0))",
    goal_cases)
  case 1
  show ?case by simp
next
  case (2 newBoard player depth wc i)
  then show ?case using empties_decrease[of i newBoard player]
    by (simp add: aiMarker_def humanMarker_def)
next
  case (3 newBoard player depth wc i)
  show ?case
  proof (cases "player = ''''")
    case True
    with 3 show ?thesis by (simp add: empties_same aiMarker_def)
  next
    case False
    with 3 show ?thesis using empties_decrease[of i newBoard player]
      by (simp add: aiMarker_def humanMarker_def)
  qed
qed

termination forcesWin
proof (relation "measure (\<lambda>(w, b, p). 2 * length (findEmptySpots b) + (if p = '''' then 1 else 0))",
    goal_cases)
  case 1
  show ?case by simp
next
  case (2 who board player i)
  show ?case
  proof (cases "player = ''''")
    case True
    with 2 show ?thesis
      by (simp add: empties_same otherMarker_def aiMarker_def humanMarker_def)
  next
    case False
    with 2 show ?thesis using empties_decrease[of i board player]
      by (simp add: otherMarker_def aiMarker_def humanMarker_def)
  qed
next
  case (3 who board player i)
  show ?case
  proof (cases "player = ''''")
    case True
    with 3 show ?thesis
      by (simp add: empties_same otherMarker_def aiMarker_def humanMarker_def)
  next
    case False
    with 3 show ?thesis using empties_decrease[of i board player]
      by (simp add: otherMarker_def aiMarker_def humanMarker_def)
  qed
qed
declare minimax.simps [simp del]

declare forcesWin.simps [simp del]

section \<open>Selection and the shape of a node\<close>

lemma pushAll_map:
  "(\<And>x. x \<in> set xs \<Longrightarrow> f x = Inr (g x)) \<Longrightarrow> pushAll (map f xs) = Inr (map g xs)"
  by (induction xs) auto

lemma selectMax_acc:
  "(selectMax (Some (score m0)) (Some m0) ms = Some m0 \<and> (\<forall>x\<in>set ms. score x \<le> score m0))
   \<or> (\<exists>pre r post. ms = pre @ r # post \<and> selectMax (Some (score m0)) (Some m0) ms = Some r
        \<and> score m0 < score r
        \<and> (\<forall>x\<in>set pre. score x < score r) \<and> (\<forall>x\<in>set post. score x \<le> score r))"
proof (induction ms arbitrary: m0)
  case Nil
  show ?case by simp
next
  case (Cons m ms)
  show ?case
  proof (cases "score m0 < score m")
    case True
    from Cons[of m] show ?thesis
    proof
      assume "selectMax (Some (score m)) (Some m) ms = Some m \<and> (\<forall>x\<in>set ms. score x \<le> score m)"
      with True have "m # ms = [] @ m # ms \<and> selectMax (Some (score m0)) (Some m0) (m # ms) = Some m
        \<and> score m0 < score m \<and> (\<forall>x\<in>set []. score x < score m) \<and> (\<forall>x\<in>set ms. score x \<le> score m)"
        by simp
      then show ?thesis by blast
    next
      assume "\<exists>pre r post. ms = pre @ r # post \<and> selectMax (Some (score m)) (Some m) ms = Some r
        \<and> score m < score r
        \<and> (\<forall>x\<in>set pre. score x < score r) \<and> (\<forall>x\<in>set post. score x \<le> score r)"
      then obtain pre r post where h: "ms = pre @ r # post"
        "selectMax (Some (score m)) (Some m) ms = Some r" "score m < score r"
        "\<forall>x\<in>set pre. score x < score r" "\<forall>x\<in>set post. score x \<le> score r" by blast
      with True have "m # ms = (m # pre) @ r # post \<and> selectMax (Some (score m0)) (Some m0) (m # ms) = Some r
        \<and> score m0 < score r \<and> (\<forall>x\<in>set (m # pre). score x < score r) \<and> (\<forall>x\<in>set post. score x \<le> score r)"
        by simp
      then show ?thesis by blast
    qed
  next
    case False
    from Cons[of m0] show ?thesis
    proof
      assume "selectMax (Some (score m0)) (Some m0) ms = Some m0 \<and> (\<forall>x\<in>set ms. score x \<le> score m0)"
      with False show ?thesis by simp
    next
      assume "\<exists>pre r post. ms = pre @ r # post \<and> selectMax (Some (score m0)) (Some m0) ms = Some r
        \<and> score m0 < score r
        \<and> (\<forall>x\<in>set pre. score x < score r) \<and> (\<forall>x\<in>set post. score x \<le> score r)"
      then obtain pre r post where h: "ms = pre @ r # post"
        "selectMax (Some (score m0)) (Some m0) ms = Some r" "score m0 < score r"
        "\<forall>x\<in>set pre. score x < score r" "\<forall>x\<in>set post. score x \<le> score r" by blast
      with False have "m # ms = (m # pre) @ r # post \<and> selectMax (Some (score m0)) (Some m0) (m # ms) = Some r
        \<and> score m0 < score r \<and> (\<forall>x\<in>set (m # pre). score x < score r) \<and> (\<forall>x\<in>set post. score x \<le> score r)"
        by simp
      then show ?thesis by blast
    qed
  qed
qed

lemma selectMax_first:
  assumes "ms \<noteq> []"
  shows "\<exists>pre r post. ms = pre @ r # post \<and> selectMax None None ms = Some r
        \<and> (\<forall>x\<in>set pre. score x < score r) \<and> (\<forall>x\<in>set post. score x \<le> score r)"
proof -
  from assms obtain m ms' where ms: "ms = m # ms'" by (cases ms) auto
  from selectMax_acc[of m ms'] show ?thesis
  proof
    assume "selectMax (Some (score m)) (Some m) ms' = Some m \<and> (\<forall>x\<in>set ms'. score x \<le> score m)"
    then have "ms = [] @ m # ms' \<and> selectMax None None ms = Some m
        \<and> (\<forall>x\<in>set []. score x < score m) \<and> (\<forall>x\<in>set ms'. score x \<le> score m)"
      using ms by simp
    then show ?thesis by blast
  next
    assume "\<exists>pre r post. ms' = pre @ r # post \<and> selectMax (Some (score m)) (Some m) ms' = Some r
        \<and> score m < score r
        \<and> (\<forall>x\<in>set pre. score x < score r) \<and> (\<forall>x\<in>set post. score x \<le> score r)"
    then obtain pre r post where h: "ms' = pre @ r # post"
        "selectMax (Some (score m)) (Some m) ms' = Some r" "score m < score r"
        "\<forall>x\<in>set pre. score x < score r" "\<forall>x\<in>set post. score x \<le> score r" by blast
    then have "ms = (m # pre) @ r # post \<and> selectMax None None ms = Some r
        \<and> (\<forall>x\<in>set (m # pre). score x < score r) \<and> (\<forall>x\<in>set post. score x \<le> score r)"
      using ms by simp
    then show ?thesis by blast
  qed
qed

lemma negMove_negMove [simp]: "negMove (negMove m) = m"
  by (simp add: negMove_def)

lemma selectMin_neg:
  "map_option negMove (selectMin bs bm ms)
   = selectMax (map_option uminus bs) (map_option negMove bm) (map negMove ms)"
  by (induction ms arbitrary: bs bm) (auto simp: negMove_def split: option.splits)

lemma selectMin_first:
  assumes "ms \<noteq> []"
  shows "\<exists>pre r post. ms = pre @ r # post \<and> selectMin None None ms = Some r
        \<and> (\<forall>x\<in>set pre. score r < score x) \<and> (\<forall>x\<in>set post. score r \<le> score x)"
proof -
  from assms have "map negMove ms \<noteq> []" by simp
  from selectMax_first[OF this] obtain pre r post where
    h: "map negMove ms = pre @ r # post" "selectMax None None (map negMove ms) = Some r"
       "\<forall>x\<in>set pre. score x < score r" "\<forall>x\<in>set post. score x \<le> score r" by blast
  from h(1) have "map negMove (map negMove ms) = map negMove pre @ negMove r # map negMove post"
    by simp
  then have ms: "ms = map negMove pre @ negMove r # map negMove post"
    by (simp add: comp_def)
  have "map_option negMove (selectMin None None ms) = Some r"
    using h(2) by (simp add: selectMin_neg)
  then obtain z where z: "selectMin None None ms = Some z" "negMove z = r"
    by auto
  from z(2) have "negMove (negMove z) = negMove r" by simp
  with z(1) have "selectMin None None ms = Some (negMove r)" by simp
  moreover have "\<forall>x\<in>set (map negMove pre). score (negMove r) < score x"
    using h(3) by (auto simp: negMove_def)
  moreover have "\<forall>x\<in>set (map negMove post). score (negMove r) \<le> score x"
    using h(4) by (auto simp: negMove_def)
  ultimately show ?thesis using ms by blast
qed

lemma minimax_human_won:
  "checkBoardWin b humanMarker wc \<Longrightarrow> minimax b p d wc = Inr (Some \<lparr>index = None, score = - 100 + d\<rparr>)"
  by (subst minimax.simps) (simp add: scores_def)

lemma minimax_ai_won:
  "\<not> checkBoardWin b humanMarker wc \<Longrightarrow> checkBoardWin b aiMarker wc \<Longrightarrow>
   minimax b p d wc = Inr (Some \<lparr>index = None, score = 100 - d\<rparr>)"
  by (subst minimax.simps) (simp add: scores_def)

lemma minimax_draw:
  "\<not> checkBoardWin b humanMarker wc \<Longrightarrow> \<not> checkBoardWin b aiMarker wc \<Longrightarrow>
   findEmptySpots b = [] \<Longrightarrow>
   minimax b p d wc = Inr (Some \<lparr>index = None, score = 0\<rparr>)"
  by (subst minimax.simps) (simp add: scores_def)

lemma minimax_step:
  assumes nt: "\<not> checkBoardWin b humanMarker wc" "\<not> checkBoardWin b aiMarker wc"
      "findEmptySpots b \<noteq> []"
    and child: "\<And>i. i \<in> set (findEmptySpots b) \<Longrightarrow>
      \<exists>m. minimax (b[nat i := p]) (otherMarker p) (d + 1) wc = Inr (Some m)"
  shows "minimax b p d wc =
      Inr (if p = aiMarker then selectMax None None (childMoves b p d wc)
           else selectMin None None (childMoves b p d wc))"
proof -
  have "pushAll (map (\<lambda>i. scoredMove i (minimax (b[nat i := p]) (otherMarker p) (d + 1) wc))
             (findEmptySpots b)) = Inr (childMoves b p d wc)"
    unfolding childMoves_def
  proof (rule pushAll_map)
    fix i assume "i \<in> set (findEmptySpots b)"
    from child[OF this] obtain m where
      "minimax (b[nat i := p]) (otherMarker p) (d + 1) wc = Inr (Some m)" ..
    then show "scoredMove i (minimax (b[nat i := p]) (otherMarker p) (d + 1) wc)
      = Inr \<lparr>index = Some i, score = minimaxScore (b[nat i := p]) (otherMarker p) (d + 1) wc\<rparr>"
      by (simp add: scoredMove_def minimaxScore_def)
  qed
  then show ?thesis using nt
    by (cases "p = aiMarker"; subst minimax.simps) (simp_all add: otherMarker_def)
qed

lemma select_total:
  assumes "ms \<noteq> []"
  shows "\<exists>m. (if c then selectMax None None ms else selectMin None None ms) = Some m"
  using selectMax_first[OF assms] selectMin_first[OF assms] by (cases c) auto

lemma childMoves_Nil: "childMoves b p d wc = [] \<longleftrightarrow> findEmptySpots b = []"
  by (simp add: childMoves_def)

theorem minimax_total: "\<exists>m. minimax b p d wc = Inr (Some m)"
proof (induction b p d wc rule: minimax.induct)
  case (1 newBoard player depth wc)
  consider (x) "checkBoardWin newBoard humanMarker wc"
    | (o) "\<not> checkBoardWin newBoard humanMarker wc" "checkBoardWin newBoard aiMarker wc"
    | (d) "\<not> checkBoardWin newBoard humanMarker wc" "\<not> checkBoardWin newBoard aiMarker wc"
        "findEmptySpots newBoard = []"
    | (n) "\<not> checkBoardWin newBoard humanMarker wc" "\<not> checkBoardWin newBoard aiMarker wc"
        "findEmptySpots newBoard \<noteq> []"
    by blast
  then show ?case
  proof cases
    case x then show ?thesis by (simp add: minimax_human_won)
  next
    case o then show ?thesis by (simp add: minimax_ai_won)
  next
    case d then show ?thesis by (simp add: minimax_draw)
  next
    case n
    have child: "\<exists>m. minimax (newBoard[nat i := player]) (otherMarker player) (depth + 1) wc = Inr (Some m)"
      if "i \<in> set (findEmptySpots newBoard)" for i
      using "1.IH"(1)[of i] "1.IH"(2)[of i] n that
      by (cases "player = aiMarker") (auto simp: otherMarker_def)
    from n(3) have "childMoves newBoard player depth wc \<noteq> []" by (simp add: childMoves_Nil)
    from select_total[OF this] show ?thesis
      by (simp add: minimax_step[OF n child])
  qed
qed

lemma minimax_node:
  assumes "\<not> checkBoardWin b humanMarker wc" "\<not> checkBoardWin b aiMarker wc"
      "findEmptySpots b \<noteq> []"
  shows "minimax b p d wc =
      Inr (if p = aiMarker then selectMax None None (childMoves b p d wc)
           else selectMin None None (childMoves b p d wc))"
  using assms minimax_total by (intro minimax_step) auto

lemma minimax_eq:
  "minimax b p d wc = Inr (Some \<lparr>index = minimaxIndex b p d wc, score = minimaxScore b p d wc\<rparr>)"
proof -
  obtain m where "minimax b p d wc = Inr (Some m)" using minimax_total by blast
  then show ?thesis by (simp add: minimaxIndex_def minimaxScore_def)
qed

section \<open>Rounding to binary64\<close>

text \<open>
  What the claims need of the rounded product: a binary64 number is rounded to itself; a
  number between two integers, and more than half a unit in the last place below the upper
  one, is rounded to a number between them; the largest binary64 number below 1 is
  \<open>1 - 2^-53\<close>.
\<close>

lemma ulp_pos: "0 < ulp x"
  by (simp add: ulp_def)

lemma roundEven_ge: "of_int a \<le> q \<Longrightarrow> a \<le> roundEven q"
proof -
  assume "of_int a \<le> q"
  then have "a \<le> \<lfloor>q\<rfloor>" by (simp add: le_floor_iff)
  then show ?thesis by (simp add: roundEven_def Let_def)
qed

lemma roundEven_lt: "q < of_int b - 1 / 2 \<Longrightarrow> roundEven q < b"
proof -
  assume h: "q < of_int b - 1 / 2"
  then have "q < of_int b" by simp
  then have f: "\<lfloor>q\<rfloor> < b" by (simp add: floor_less_iff)
  show ?thesis
  proof (cases "\<lfloor>q\<rfloor> = b - 1")
    case True
    then have "q - of_int \<lfloor>q\<rfloor> < 1 / 2" using h by simp
    then show ?thesis using f by (simp add: roundEven_def Let_def)
  next
    case False
    with f have "\<lfloor>q\<rfloor> + 1 < b" by simp
    then show ?thesis by (simp add: roundEven_def Let_def)
  qed
qed

lemma roundEven_int: "roundEven (of_int a) = a"
  by (simp add: roundEven_def)

text \<open>The unit in the last place is a power of two with an exponent that is not positive
  when the number is below \<open>2 ^ 53\<close>, so every integer is a multiple of it.\<close>

lemma floor_log2_le:
  assumes "0 < x" "x < 2 ^ 53"
  shows "\<lfloor>log 2 x\<rfloor> \<le> 52"
proof -
  have "x < 2 powr 53" using assms(2) by (simp add: powr_realpow[symmetric])
  then have "log 2 x < 53" using assms(1) by (simp add: log_less_iff)
  then have "\<lfloor>log 2 x\<rfloor> < 53" by (simp add: floor_less_iff)
  then show ?thesis by simp
qed

lemma ulp_inverse_int:
  assumes "0 < x" "x < 2 ^ 53"
  shows "\<exists>j::nat. 1 / ulp x = 2 ^ j"
proof -
  let ?i = "max \<lfloor>log 2 x\<rfloor> (- 1022) - 52"
  have i: "?i \<le> 0" using floor_log2_le[OF assms] by simp
  have "ulp x = 2 powr of_int ?i" by (simp only: ulp_def)
  then have "1 / ulp x = inverse (2 powr of_int ?i)" by (simp add: inverse_eq_divide)
  also have "\<dots> = 2 powr (- of_int ?i)" by (simp only: powr_minus)
  also have "- (of_int ?i :: real) = real (nat (- ?i))" using i by simp
  also have "2 powr real (nat (- ?i)) = 2 ^ nat (- ?i)" by (simp add: powr_realpow)
  finally show ?thesis by blast
qed

lemma int_div_ulp:
  assumes "0 < x" "x < 2 ^ 53"
  shows "\<exists>c::int. of_int a / ulp x = of_int c"
proof -
  from ulp_inverse_int[OF assms] obtain j :: nat where j: "1 / ulp x = 2 ^ j" by blast
  have "of_int a / ulp x = of_int a * (1 / ulp x)" by simp
  also have "\<dots> = of_int (a * 2 ^ j)" by (simp add: j)
  finally show ?thesis by blast
qed

lemma roundBinary64_between:
  assumes x: "0 < x" "x < 2 ^ 53"
    and lo: "of_int a \<le> x" and hi: "x < of_int b - ulp x / 2"
  shows "of_int a \<le> roundBinary64 x \<and> roundBinary64 x < of_int b"
proof -
  let ?u = "ulp x"
  have u: "0 < ?u" by (rule ulp_pos)
  from int_div_ulp[OF x, of a] obtain A :: int where A: "of_int a / ?u = of_int A" by blast
  from int_div_ulp[OF x, of b] obtain B :: int where B: "of_int b / ?u = of_int B" by blast
  have "of_int a / ?u \<le> x / ?u" using lo u by (simp add: divide_right_mono)
  then have "A \<le> roundEven (x / ?u)" using A roundEven_ge by simp
  then have "of_int A * ?u \<le> of_int (roundEven (x / ?u)) * ?u"
    using u by simp
  moreover have "of_int A * ?u = of_int a" using A u by (simp add: field_simps)
  ultimately have 1: "of_int a \<le> roundBinary64 x" using x(1) by (simp add: roundBinary64_def)
  have "x / ?u < (of_int b - ?u / 2) / ?u" using hi u by (simp add: divide_strict_right_mono)
  also have "\<dots> = of_int B - 1 / 2" using B u by (simp add: field_simps)
  finally have "roundEven (x / ?u) < B" by (rule roundEven_lt)
  then have "of_int (roundEven (x / ?u)) * ?u < of_int B * ?u" using u by simp
  moreover have "of_int B * ?u = of_int b" using B u by (simp add: field_simps)
  ultimately have 2: "roundBinary64 x < of_int b" using x(1) by (simp add: roundBinary64_def)
  from 1 2 show ?thesis ..
qed

lemma roundBinary64_ge:
  assumes x: "0 < x" "x < 2 ^ 53" and lo: "of_int a \<le> x"
  shows "of_int a \<le> roundBinary64 x"
proof -
  let ?u = "ulp x"
  have u: "0 < ?u" by (rule ulp_pos)
  from int_div_ulp[OF x, of a] obtain A :: int where A: "of_int a / ?u = of_int A" by blast
  have "of_int a / ?u \<le> x / ?u" using lo u by (simp add: divide_right_mono)
  then have "A \<le> roundEven (x / ?u)" using A roundEven_ge by simp
  then have "of_int A * ?u \<le> of_int (roundEven (x / ?u)) * ?u"
    using u by simp
  moreover have "of_int A * ?u = of_int a" using A u by (simp add: field_simps)
  ultimately show ?thesis using x(1) by (simp add: roundBinary64_def)
qed

lemma roundBinary64_lt:
  assumes x: "0 < x" "x < 2 ^ 53" and hi: "x < of_int b - ulp x / 2"
  shows "roundBinary64 x < of_int b"
proof -
  let ?u = "ulp x"
  have u: "0 < ?u" by (rule ulp_pos)
  from int_div_ulp[OF x, of b] obtain B :: int where B: "of_int b / ?u = of_int B" by blast
  have "x / ?u < (of_int b - ?u / 2) / ?u" using hi u by (simp add: divide_strict_right_mono)
  also have "\<dots> = of_int B - 1 / 2" using B u by (simp add: field_simps)
  finally have "roundEven (x / ?u) < B" by (rule roundEven_lt)
  then have "of_int (roundEven (x / ?u)) * ?u < of_int B * ?u" using u by simp
  moreover have "of_int B * ?u = of_int b" using B u by (simp add: field_simps)
  ultimately show ?thesis using x(1) by (simp add: roundBinary64_def)
qed

lemma powr_floor_log2:
  assumes "0 < x"
  shows "2 powr of_int \<lfloor>log 2 x\<rfloor> \<le> x" and "x < 2 powr of_int (\<lfloor>log 2 x\<rfloor> + 1)"
proof -
  have "\<lfloor>log 2 x\<rfloor> = \<lfloor>log 2 x\<rfloor>" ..
  then have "2 powr of_int \<lfloor>log 2 x\<rfloor> \<le> x \<and> x < 2 powr of_int (\<lfloor>log 2 x\<rfloor> + 1)"
    using assms by (subst (asm) floor_log_eq_powr_iff) simp_all
  then show "2 powr of_int \<lfloor>log 2 x\<rfloor> \<le> x" and "x < 2 powr of_int (\<lfloor>log 2 x\<rfloor> + 1)"
    by simp_all
qed

lemma ulp_lt:
  assumes "0 < x" "x < c" "1 \<le> c"
  shows "ulp x < c / 2 ^ 52"
proof (cases "- 1022 \<le> \<lfloor>log 2 x\<rfloor>")
  case True
  then have "max \<lfloor>log 2 x\<rfloor> (- 1022) = \<lfloor>log 2 x\<rfloor>" by (rule max_absorb1)
  then have "ulp x = 2 powr (of_int \<lfloor>log 2 x\<rfloor> - 52)"
    by (simp only: ulp_def of_int_diff of_int_numeral)
  also have "\<dots> = 2 powr of_int \<lfloor>log 2 x\<rfloor> / 2 powr 52"
    by (simp add: powr_diff)
  also have "\<dots> = 2 powr of_int \<lfloor>log 2 x\<rfloor> / 2 ^ 52"
    by (simp add: powr_realpow[symmetric])
  also have "\<dots> \<le> x / 2 ^ 52"
    using powr_floor_log2(1)[OF assms(1)] by (simp add: divide_right_mono)
  also have "\<dots> < c / 2 ^ 52" using assms(2) by (simp add: divide_strict_right_mono)
  finally show ?thesis .
next
  case False
  then have "max \<lfloor>log 2 x\<rfloor> (- 1022) = - 1022" by (intro max_absorb2) simp
  then have "ulp x = 2 powr (- 1074)" by (simp only: ulp_def) simp
  also have "\<dots> = 1 / 2 ^ 1074"
    by (simp add: powr_minus powr_realpow[symmetric] inverse_eq_divide)
  also have "\<dots> < 1 / 2 ^ 52" by simp
  also have "\<dots> \<le> c / 2 ^ 52" using assms(3) by (simp add: divide_right_mono)
  finally show ?thesis .
qed

lemma roundBinary64_exact:
  assumes "binary64 x"
  shows "roundBinary64 x = x"
proof (cases "x = 0")
  case True
  then show ?thesis by (simp add: roundBinary64_def)
next
  case False
  with assms obtain M :: int where M: "x / ulp x = of_int M"
    by (auto simp: binary64_def Ints_def)
  then have "roundEven (x / ulp x) = M" by (simp only: roundEven_int)
  then have "roundBinary64 x = of_int M * ulp x" using False by (simp add: roundBinary64_def)
  also have "\<dots> = x" using M ulp_pos[of x] by (simp add: field_simps)
  finally show ?thesis .
qed

lemma binary64_dyadic:
  assumes "m < 2 ^ 53" "k \<le> 1074"
  shows "binary64 (real m / 2 ^ k)"
proof (cases "m = 0")
  case True
  then show ?thesis by (simp add: binary64_def)
next
  case False
  define x where "x = real m / 2 ^ k"
  define i where "i = max \<lfloor>log 2 x\<rfloor> (- 1022) - 52"
  from False have pos: "0 < x" by (simp add: x_def)
  have "real m < real (2 ^ 53)" using assms(1) by (simp only: of_nat_less_iff)
  then have m: "real m < 2 ^ 53" by simp
  have "x \<le> real m / 1" unfolding x_def by (rule divide_left_mono) simp_all
  with m have lt: "x < 2 ^ 53" by simp
  have big: "x < 2 ^ 1024"
  proof -
    have "(2::real) ^ 53 \<le> 2 ^ 1024" by (rule power_increasing) simp_all
    with lt show ?thesis by simp
  qed
  have "x < 2 powr (53 - real k)"
    using m by (simp add: x_def powr_diff powr_realpow[symmetric] divide_strict_right_mono)
  then have "log 2 x < 53 - real k" using pos by (simp add: log_less_iff)
  then have "log 2 x < of_int (53 - int k)" by simp
  then have "\<lfloor>log 2 x\<rfloor> < 53 - int k" by (simp only: floor_less_iff)
  with assms(2) have i: "i + int k \<le> 0" by (simp add: i_def)
  have u: "ulp x = 2 powr of_int i" by (simp only: ulp_def i_def)
  have xe: "x = real m * 2 powr (- real k)"
    by (simp add: x_def powr_minus powr_realpow divide_inverse)
  have "x / ulp x = x * 2 powr (- of_int i)"
    by (simp only: u powr_minus divide_inverse)
  also have "\<dots> = real m * (2 powr (- real k) * 2 powr (- of_int i))"
    by (subst xe) (simp only: mult.assoc)
  also have "2 powr (- real k) * 2 powr (- of_int i) = 2 powr (- real k + - of_int i)"
    by (simp only: powr_add)
  also have "- real k + - of_int i = real (nat (- (i + int k)))" using i by simp
  also have "2 powr real (nat (- (i + int k))) = 2 ^ nat (- (i + int k))"
    by (simp add: powr_realpow)
  finally have "x / ulp x = of_int (int m * 2 ^ nat (- (i + int k)))" by simp
  then have "x / ulp x \<in> \<int>" by (simp only: Ints_of_int)
  with pos big show ?thesis by (simp add: binary64_def x_def)
qed

lemma binary64_below_one:
  assumes "binary64 r" "r < 1"
  shows "r \<le> 1 - 1 / 2 ^ 53"
proof (cases "r = 0")
  case True
  then show ?thesis by simp
next
  case False
  with assms(1) have pos: "0 < r" and int: "r / ulp r \<in> \<int>" by (auto simp: binary64_def)
  have "log 2 r < 0" using pos assms(2) by simp
  then have "\<lfloor>log 2 r\<rfloor> < 0" by (simp only: floor_less_zero)
  then have e: "\<lfloor>log 2 r\<rfloor> \<le> - 1" by linarith
  show ?thesis
  proof (cases "\<lfloor>log 2 r\<rfloor> = - 1")
    case True
    then have "ulp r = 2 powr (- 53)" by (simp add: ulp_def)
    also have "\<dots> = 1 / 2 ^ 53"
      by (simp add: powr_minus powr_realpow[symmetric] inverse_eq_divide)
    finally have u: "ulp r = 1 / 2 ^ 53" .
    from int u obtain M :: int where M: "r * 2 ^ 53 = of_int M" by (auto simp: Ints_def)
    from assms(2) have "r * 2 ^ 53 < 2 ^ 53" by simp
    with M have "of_int M < (2 ^ 53 :: real)" by simp
    then have "(of_int M :: real) < of_int (2 ^ 53)" by simp
    then have "M < 2 ^ 53" by (simp only: of_int_less_iff)
    then have "M \<le> 2 ^ 53 - 1" by simp
    then have "(of_int M :: real) \<le> of_int (2 ^ 53 - 1)" by (simp only: of_int_le_iff)
    with M have "r * 2 ^ 53 \<le> 2 ^ 53 - 1" by simp
    then show ?thesis by (simp add: field_simps)
  next
    case False
    with e have "\<lfloor>log 2 r\<rfloor> + 1 \<le> - 1" by simp
    then have "(of_int (\<lfloor>log 2 r\<rfloor> + 1) :: real) \<le> of_int (- 1)" by (simp only: of_int_le_iff)
    then have "(of_int (\<lfloor>log 2 r\<rfloor> + 1) :: real) \<le> - 1" by simp
    then have "2 powr of_int (\<lfloor>log 2 r\<rfloor> + 1) \<le> 2 powr (- 1 :: real)"
      by (simp only: powr_le_cancel_iff[of 2] one_less_numeral_iff semiring_norm)
    with powr_floor_log2(2)[OF pos] have "r < 2 powr (- 1)" by simp
    then have "r < 1 / 2" by (simp add: powr_minus inverse_eq_divide)
    then show ?thesis by simp
  qed
qed

lemma real_nat_less_pow53: "n < 2 ^ 53 \<Longrightarrow> real n < 2 ^ 53"
proof -
  assume "n < 2 ^ 53"
  then have "real n < real (2 ^ 53)" by (simp only: of_nat_less_iff)
  then show ?thesis by simp
qed

lemma pick_range:
  assumes r: "binary64 r" "0 \<le> r" "r < 1" and n: "0 < n" "n < 2 ^ 53"
  shows "0 \<le> \<lfloor>roundBinary64 (r * real n)\<rfloor> \<and> \<lfloor>roundBinary64 (r * real n)\<rfloor> < int n"
proof (cases "r * real n = 0")
  case True
  with n(1) show ?thesis by (simp add: roundBinary64_def)
next
  case False
  define x where "x = r * real n"
  from r(2) have "0 \<le> x" by (simp add: x_def)
  moreover from False have "x \<noteq> 0" by (simp only: x_def not_False_eq_True)
  ultimately have pos: "0 < x" by linarith
  have rn: "0 < real n" "1 \<le> real n" using n(1) by simp_all
  have "x \<le> (1 - 1 / 2 ^ 53) * real n"
    unfolding x_def by (rule mult_right_mono[OF binary64_below_one[OF r(1,3)]]) simp
  then have up: "x \<le> real n - real n / 2 ^ 53" by (simp add: algebra_simps)
  moreover have "0 < real n / 2 ^ 53" using rn(1) by simp
  ultimately have xn: "x < real n" by linarith
  with real_nat_less_pow53[OF n(2)] have x53: "x < 2 ^ 53" by simp
  from ulp_lt[OF pos xn rn(2)] have "ulp x / 2 < real n / 2 ^ 53" by simp
  with up have "x < of_int (int n) - ulp x / 2" by simp
  from roundBinary64_between[OF pos x53 _ this, of 0] pos
  have "0 \<le> roundBinary64 x \<and> roundBinary64 x < of_int (int n)" by simp
  then show ?thesis unfolding x_def by (simp add: floor_less_iff)
qed

lemma pick_interval:
  assumes n: "0 < n" "n < 2 ^ 53" and k: "k < n"
    and lo: "real k / real n \<le> r" and hi: "r \<le> real (Suc k) / real n - 1 / 2 ^ 53"
  shows "\<lfloor>roundBinary64 (r * real n)\<rfloor> = int k"
proof -
  define x where "x = r * real n"
  have rn: "0 < real n" "1 \<le> real n" using n(1) by simp_all
  from lo rn(1) have xl: "real k \<le> x" by (simp add: x_def pos_divide_le_eq)
  from hi rn(1) have "x \<le> (real (Suc k) / real n - 1 / 2 ^ 53) * real n"
    unfolding x_def by (intro mult_right_mono) simp_all
  also have "\<dots> = real k + 1 - real n / 2 ^ 53" using rn(1) by (simp add: field_simps)
  finally have up: "x \<le> real k + 1 - real n / 2 ^ 53" .
  from k have "Suc k \<le> n" by simp
  then have "real (Suc k) \<le> real n" by (simp only: of_nat_le_iff)
  then have "real k + 1 \<le> real n" by simp
  moreover have "0 < real n / 2 ^ 53" using rn(1) by simp
  ultimately have xn: "x < real n" using up by linarith
  show ?thesis
  proof (cases "x = 0")
    case True
    with xl have "k = 0" by simp
    with True show ?thesis by (simp add: x_def[symmetric] roundBinary64_def)
  next
    case False
    moreover from xl have "0 \<le> x" by (rule order_trans[rotated]) simp
    ultimately have pos: "0 < x" by linarith
    from xn real_nat_less_pow53[OF n(2)] have x53: "x < 2 ^ 53" by simp
    from ulp_lt[OF pos xn rn(2)] have "ulp x / 2 < real n / 2 ^ 53" by simp
    with up have "x < of_int (int k + 1) - ulp x / 2" by simp
    from roundBinary64_between[OF pos x53 _ this, of "int k"] xl
    have "of_int (int k) \<le> roundBinary64 x \<and> roundBinary64 x < of_int (int k) + 1" by simp
    then have "\<lfloor>roundBinary64 x\<rfloor> = int k" by (intro floor_unique) simp_all
    then show ?thesis by (simp only: x_def)
  qed
qed

text \<open>Conversely, the draws that pick position \<open>k\<close> lie in \<open>[k/n (1 - 2^-53), (k+1)/n)\<close>.\<close>

lemma pick_only:
  assumes r: "0 \<le> r" "r < 1" and n: "0 < n" "n < 2 ^ 53"
    and p: "\<lfloor>roundBinary64 (r * real n)\<rfloor> = int k"
  shows "real k / real n * (1 - 1 / 2 ^ 53) \<le> r \<and> r < real (Suc k) / real n"
proof -
  define x where "x = r * real n"
  have rn: "0 < real n" using n(1) by simp
  from p have px: "\<lfloor>roundBinary64 x\<rfloor> = int k" by (simp only: x_def)
  from r(1) rn have x0: "0 \<le> x" by (simp add: x_def)
  from r(2) rn have "x < 1 * real n" unfolding x_def by (intro mult_strict_right_mono)
  then have xn: "x < real n" by simp
  with real_nat_less_pow53[OF n(2)] have x53: "x < 2 ^ 53" by simp
  have up: "x < real (Suc k)"
  proof (rule ccontr)
    assume "\<not> x < real (Suc k)"
    then have ge: "real (Suc k) \<le> x" by simp
    then have pos: "0 < x" by simp
    from ge have "of_int (int (Suc k)) \<le> x" by simp
    from roundBinary64_ge[OF pos x53 this] have "int (Suc k) \<le> \<lfloor>roundBinary64 x\<rfloor>"
      by (simp only: le_floor_iff)
    with px show False by simp
  qed
  have lo: "real k * (1 - 1 / 2 ^ 53) \<le> x"
  proof (rule ccontr)
    assume "\<not> real k * (1 - 1 / 2 ^ 53) \<le> x"
    then have lt: "x < real k - real k / 2 ^ 53" by (simp add: algebra_simps)
    show False
    proof (cases "x = 0")
      case True
      then have "roundBinary64 x = 0" by (simp add: roundBinary64_def)
      with px have "k = 0" by simp
      with lt True show False by simp
    next
      case False
      with x0 have pos: "0 < x" by linarith
      have k0: "0 \<le> real k / 2 ^ 53" by simp
      with lt have xk: "x < real k" by linarith
      with pos have "0 < real k" by linarith
      then have "0 < k" by simp
      then have k1: "1 \<le> real k" by simp
      from ulp_lt[OF pos xk k1] have "ulp x / 2 < real k / 2 ^ 53" by simp
      with lt have "x < of_int (int k) - ulp x / 2" by simp
      from roundBinary64_lt[OF pos x53 this] have "\<lfloor>roundBinary64 x\<rfloor> < int k"
        by (simp only: floor_less_iff)
      with px show False by simp
    qed
  qed
  from up rn have 1: "r < real (Suc k) / real n"
    by (simp only: x_def pos_less_divide_eq)
  from lo rn have "real k * (1 - 1 / 2 ^ 53) / real n \<le> r"
    by (simp only: x_def pos_divide_le_eq)
  then have 2: "real k / real n * (1 - 1 / 2 ^ 53) \<le> r" by simp
  from 2 1 show ?thesis ..
qed

lemma pick_dyadic:
  assumes "m * n < 2 ^ 53" "k \<le> 1074"
  shows "roundBinary64 (real m / 2 ^ k * real n) = real (m * n) / 2 ^ k"
proof -
  have "real m / 2 ^ k * real n = real (m * n) / 2 ^ k" by simp
  with roundBinary64_exact[OF binary64_dyadic[OF assms]] show ?thesis by simp
qed

lemma drawValue_range: "binary64 (drawValue r)" "0 \<le> drawValue r" "drawValue r < 1"
  using drawValue[of r] by simp_all

lemma drawValue_drawOf:
  "drawValue (drawOf m k) = (if m < 2 ^ k \<and> m < 2 ^ 53 \<and> k \<le> 1074 then real m / 2 ^ k else 0)"
proof (cases "m < 2 ^ k \<and> m < 2 ^ 53 \<and> k \<le> 1074")
  case True
  then have "real m < real (2 ^ k)" by (simp only: of_nat_less_iff)
  then have "real m / 2 ^ k < 1" by simp
  with True binary64_dyadic[of m k] have "real m / 2 ^ k \<in> {r. binary64 r \<and> 0 \<le> r \<and> r < 1}"
    by simp
  moreover from True have "drawOf m k = Draw (real m / 2 ^ k)" by (simp only: drawOf_def if_True simp_thms)
  ultimately show ?thesis using True by (simp only: Draw_inverse if_True simp_thms)
next
  case False
  have z: "(0::real) \<in> {r. binary64 r \<and> 0 \<le> r \<and> r < 1}" by (simp add: binary64_def)
  from False have "drawOf m k = Draw 0" by (simp only: drawOf_def if_False)
  with False z show ?thesis by (simp only: Draw_inverse if_False)
qed

lemma drawValue_zero: "drawValue 0 = 0"
proof -
  have "(0::real) \<in> {r. binary64 r \<and> 0 \<le> r \<and> r < 1}" by (simp add: binary64_def)
  then show ?thesis by (simp add: zero_draw_def Draw_inverse)
qed

text \<open>
  A tie: \<open>2573485501354569 / 2^52\<close> is below \<open>4/7\<close>, but its product with 7 is
  \<open>4 - 2^-52\<close>, halfway between two binary64 numbers, and rounds to the even one, 4.
\<close>

text \<open>The rounded value of a number from 1 on, by its binary exponent.\<close>

lemma roundBinary64_at:
  assumes "2 ^ e \<le> x" "x < 2 ^ Suc e"
  shows "roundBinary64 x = of_int (roundEven (x * 2 ^ 52 / 2 ^ e)) * 2 ^ e / 2 ^ 52"
proof -
  from assms(1) have pos: "0 < x" by (rule less_le_trans[rotated]) simp
  have p1: "2 powr of_int (int e) = (2::real) ^ e"
    by (simp only: of_int_of_nat_eq) (rule powr_realpow, simp)
  have "2 powr of_int (int e + 1) = (2::real) powr real (Suc e)"
    by (simp add: add.commute)
  also have "\<dots> = 2 ^ Suc e" by (rule powr_realpow) simp
  finally have p2: "2 powr of_int (int e + 1) = (2::real) ^ Suc e" .
  have "2 powr of_int (int e) \<le> x \<and> x < 2 powr of_int (int e + 1)"
    using assms by (simp only: p1 p2)
  then have f: "\<lfloor>log 2 x\<rfloor> = int e" using pos by (subst floor_log_eq_powr_iff) simp_all
  have m: "max (int e) (- 1022) = int e" by simp
  have p3: "(2::real) powr 52 = 2 ^ 52"
    using powr_realpow[of "2::real" 52] by simp
  have "ulp x = 2 powr (of_int (int e) - 52)"
    by (simp only: ulp_def f m of_int_diff of_int_numeral)
  also have "\<dots> = 2 powr of_int (int e) / 2 powr 52" by (simp only: powr_diff)
  also have "\<dots> = 2 ^ e / 2 ^ 52" by (simp only: p1 p3)
  finally have u: "ulp x = 2 ^ e / 2 ^ 52" .
  have q: "x / ulp x = x * 2 ^ 52 / 2 ^ e" by (simp only: u) simp
  from pos have "roundBinary64 x = of_int (roundEven (x / ulp x)) * ulp x"
    by (simp add: roundBinary64_def)
  then show ?thesis by (simp only: q u) simp
qed

lemma roundBinary64_tie: "roundBinary64 (18014398509481983 / 4503599627370496) = 4"
proof -
  define x :: real where "x = 18014398509481983 / 4503599627370496"
  have pos: "0 < x" by (simp add: x_def)
  have "2 powr of_int 1 \<le> x \<and> x < 2 powr of_int (1 + 1)" by (simp add: x_def)
  then have e: "\<lfloor>log 2 x\<rfloor> = 1" using pos by (subst floor_log_eq_powr_iff) simp_all
  have "ulp x = 2 powr (- 51)" by (simp add: ulp_def e)
  also have "\<dots> = 1 / 2 ^ 51"
    by (simp add: powr_minus powr_realpow[symmetric] inverse_eq_divide)
  finally have u: "ulp x = 1 / 2 ^ 51" .
  have q: "x / ulp x = 18014398509481983 / 2" by (simp only: u) (simp add: x_def)
  have f: "\<lfloor>18014398509481983 / 2 :: real\<rfloor> = 9007199254740991" by simp
  have "roundEven (18014398509481983 / 2) = 9007199254740992"
    by (simp add: roundEven_def f)
  then have "roundBinary64 x = 9007199254740992 * (1 / 2 ^ 51)"
    using pos by (simp only: roundBinary64_def q) (simp add: u)
  then show ?thesis by (simp add: x_def)
qed

lemma tie_example:
  "drawValue (drawOf 2573485501354569 52) < 4 / 7
   \<and> \<lfloor>roundBinary64 (drawValue (drawOf 2573485501354569 52) * real (7::nat))\<rfloor> = 4"
  by (simp add: drawValue_drawOf roundBinary64_tie)

section \<open>Lines, gaps and the random pick\<close>

lemma checkBoardWin_iff:
  "checkBoardWin b m wc \<longleftrightarrow>
     (\<exists>(x, y, z) \<in> set wc. arrayAt b x = Some m \<and> arrayAt b y = Some m \<and> arrayAt b z = Some m)"
  by (induction b m wc rule: checkBoardWin.induct) auto

lemma checkBoardWin_completedLine:
  "checkBoardWin b m winningConditions = completedLine b m"
  by (simp only: checkBoardWin_iff completedLine_def)

lemma findStrategicMove_spec:
  "m \<noteq> '''' \<Longrightarrow>
   findStrategicMove b m wc = (case findTwoInARowGap b m wc of None \<Rightarrow> - 1 | Some i \<Rightarrow> i)"
  by (induction b m wc rule: findStrategicMove.induct)
     (auto simp: lineGap_def Let_def split: option.splits)

lemma lineGap_empty: "lineGap b m l = Some i \<Longrightarrow> arrayAt b i = Some ''''"
  by (cases l) (auto simp: lineGap_def split: if_splits)

lemma findTwoInARowGap_empty: "findTwoInARowGap b m wc = Some i \<Longrightarrow> arrayAt b i = Some ''''"
  by (induction wc) (auto simp: lineGap_empty split: option.splits)

lemma arrayAt_empty_iff: "arrayAt b i = Some '''' \<longleftrightarrow> i \<in> set (findEmptySpots b)"
  by (auto simp: arrayAt_def findEmptySpots_iff)

lemma findTwoInARowGap_not_minus1: "findTwoInARowGap b m wc \<noteq> Some (- 1)"
  using findTwoInARowGap_empty[of b m wc "- 1"] by (auto simp: arrayAt_def)

lemma random_pick:
  assumes "xs \<noteq> []" "length xs < 2 ^ 53"
  shows "\<exists>k < length xs. \<lfloor>roundBinary64 (drawValue rnd * real (length xs))\<rfloor> = int k \<and>
           arrayAt xs \<lfloor>roundBinary64 (drawValue rnd * real (length xs))\<rfloor> = Some (xs ! k)"
proof -
  let ?n = "length xs"
  let ?i = "\<lfloor>roundBinary64 (drawValue rnd * real ?n)\<rfloor>"
  from assms(1) have n: "0 < ?n" by simp
  from pick_range[OF drawValue_range n assms(2), of rnd]
  have lo: "0 \<le> ?i" and hi: "?i < int ?n" by simp_all
  from lo hi have "nat ?i < ?n" by linarith
  moreover from lo have "?i = int (nat ?i)" by simp
  moreover from lo hi have "arrayAt xs ?i = Some (xs ! nat ?i)"
    by (simp add: arrayAt_def)
  ultimately show ?thesis by blast
qed

lemma random_interval:
  assumes "k < length xs" "length xs < 2 ^ 53"
    and "real k / real (length xs) \<le> drawValue rnd"
    and "drawValue rnd \<le> real (Suc k) / real (length xs) - 1 / 2 ^ 53"
  shows "arrayAt xs \<lfloor>roundBinary64 (drawValue rnd * real (length xs))\<rfloor> = Some (xs ! k)"
proof -
  from assms(1) have n: "0 < length xs" by (cases xs) simp_all
  from pick_interval[OF n assms(2) assms(1) assms(3) assms(4)]
  have "\<lfloor>roundBinary64 (drawValue rnd * real (length xs))\<rfloor> = int k" .
  with assms(1) show ?thesis by (simp add: arrayAt_def)
qed

lemma arrayAt_update_same:
  "arrayAt b i = Some v \<Longrightarrow> arrayAt (b[nat i := m]) i = Some m"
  by (simp add: arrayAt_def split: if_splits)

lemma arrayAt_update_other:
  "0 \<le> i \<Longrightarrow> j \<noteq> i \<Longrightarrow> arrayAt (b[nat i := m]) j = arrayAt b j"
  by (simp add: arrayAt_def nat_eq_iff)

lemma arrayAt_range: "arrayAt b i = Some v \<Longrightarrow> 0 \<le> i \<and> i < int (length b)"
  by (simp add: arrayAt_def split: if_splits)

lemma checkWin_None:
  "checkWin b wc = None \<longleftrightarrow> (\<forall>m. m \<noteq> '''' \<longrightarrow> \<not> checkBoardWin b m wc)"
  by (induction b wc rule: checkWin.induct) (auto split: option.splits)

text \<open>Every position of a list of fewer than \<open>2^32\<close> elements is picked by some draw.\<close>

lemma random_some_draw:
  assumes k: "k < length xs" and n32: "length xs < 2 ^ 32"
  shows "\<exists>r. arrayAt xs \<lfloor>roundBinary64 (drawValue r * real (length xs))\<rfloor> = Some (xs ! k)"
proof -
  define n where "n = length xs"
  define q :: real where "q = real k * 2 ^ 40 / real n"
  define j where "j = nat \<lceil>q\<rceil>"
  from k have "Suc k \<le> n" by (simp add: n_def)
  then have "real (Suc k) \<le> real n" by (simp only: of_nat_le_iff)
  then have n: "0 < real n" "real k + 1 \<le> real n" by simp_all
  have "real n < real (2 ^ 32)" using n32 unfolding n_def by (simp only: of_nat_less_iff)
  then have nb: "real n < 2 ^ 32" by simp
  have q0: "0 \<le> q" using n(1) by (simp add: q_def)
  then have "0 \<le> \<lceil>q\<rceil>" by (simp add: ceiling_le_iff le_ceiling_iff)
  then have jq: "real j = of_int \<lceil>q\<rceil>" by (simp add: j_def)
  have lo: "q \<le> real j" unfolding jq by (rule le_of_int_ceiling)
  have hi: "real j < q + 1" unfolding jq using ceiling_correct[of q] by linarith
  have qn: "q * real n = real k * 2 ^ 40" using n(1) by (simp add: q_def)
  have "q * real n + 2 ^ 40 \<le> real n * 2 ^ 40"
  proof -
    have "(real k + 1) * 2 ^ 40 \<le> real n * 2 ^ 40" using n(2) by (intro mult_right_mono) simp_all
    with qn show ?thesis by (simp add: algebra_simps)
  qed
  moreover have "real n \<le> 2 ^ 40" using nb by simp
  ultimately have "q * real n + real n \<le> real n * 2 ^ 40" by linarith
  then have "(q + 1) * real n \<le> 2 ^ 40 * real n" by (simp add: algebra_simps)
  then have "q + 1 \<le> 2 ^ 40" using n(1) by (simp only: mult_le_cancel_right_pos)
  with hi have "real j < 2 ^ 40" by simp
  then have "real j < real (2 ^ 40)" by simp
  then have j40: "j < 2 ^ 40" by (simp only: of_nat_less_iff)
  then have dv: "drawValue (drawOf j 40) = real j / 2 ^ 40"
    by (simp add: drawValue_drawOf)
  have l1: "real k / real n \<le> real j / 2 ^ 40"
  proof -
    from lo have "real k * 2 ^ 40 / real n \<le> real j" by (simp only: q_def)
    then have "real k * 2 ^ 40 \<le> real j * real n" using n(1) by (simp add: pos_divide_le_eq)
    then show ?thesis using n(1) by (simp add: field_simps)
  qed
  have l2: "real j / 2 ^ 40 \<le> real (Suc k) / real n - 1 / 2 ^ 53"
  proof -
    from hi have "real j / 2 ^ 40 < (q + 1) / 2 ^ 40" by (simp add: divide_strict_right_mono)
    also have "\<dots> = real k / real n + 1 / 2 ^ 40" using n(1) by (simp add: q_def field_simps)
    finally have a: "real j / 2 ^ 40 < real k / real n + 1 / 2 ^ 40" .
    have "1 / 2 ^ 32 < 1 / real n" using nb n(1) by (simp add: field_simps)
    then have b: "1 / 2 ^ 40 + 1 / 2 ^ 53 \<le> 1 / real n" by simp
    have "real (Suc k) / real n = real k / real n + 1 / real n" by (simp add: add_divide_distrib)
    with a b show ?thesis by linarith
  qed
  have "length xs < 2 ^ 53" using n32 by simp
  from random_interval[OF k this, of "drawOf j 40"] l1 l2
  have "arrayAt xs \<lfloor>roundBinary64 (drawValue (drawOf j 40) * real (length xs))\<rfloor> = Some (xs ! k)"
    by (simp only: dv n_def)
  then show ?thesis ..
qed

lemma random_only:
  assumes k: "k < length xs" and n53: "length xs < 2 ^ 53" and d: "distinct xs"
    and p: "arrayAt xs \<lfloor>roundBinary64 (drawValue rnd * real (length xs))\<rfloor> = Some (xs ! k)"
  shows "real k / real (length xs) * (1 - 1 / 2 ^ 53) \<le> drawValue rnd
       \<and> drawValue rnd < real (Suc k) / real (length xs)"
proof -
  from k have ne: "xs \<noteq> []" by (cases xs) simp_all
  then have n: "0 < length xs" by simp
  from random_pick[OF ne n53, of rnd] obtain j where
    j: "j < length xs" "\<lfloor>roundBinary64 (drawValue rnd * real (length xs))\<rfloor> = int j"
       "arrayAt xs \<lfloor>roundBinary64 (drawValue rnd * real (length xs))\<rfloor> = Some (xs ! j)"
    by blast
  from j(3) p have "xs ! j = xs ! k" by simp
  with d j(1) k have "j = k" by (simp add: nth_eq_iff_index_eq)
  with j(2) have "\<lfloor>roundBinary64 (drawValue rnd * real (length xs))\<rfloor> = int k" by simp
  from pick_only[OF drawValue_range(2,3) n n53 this] show ?thesis .
qed

lemma empties_below:
  "length board < 2 ^ 32 \<Longrightarrow> length (findEmptySpots board) < 2 ^ 32"
proof -
  assume b: "length board < 2 ^ 32"
  have "length (findEmptySpots board) \<le> length board"
    unfolding length_findEmptySpots by (rule length_filter_le)
  with b show ?thesis by linarith
qed

section \<open>The three difficulty tiers\<close>

lemma getBestMove_hard:
  "findEmptySpots b \<noteq> [] \<Longrightarrow>
   getBestMove rnd b ''hard'' wc = Inr (minimaxIndex b aiMarker 0 wc)"
  using minimax_eq[of b aiMarker 0 wc] by (simp add: getBestMove_def)

lemma getBestMove_easy:
  "findEmptySpots b \<noteq> [] \<Longrightarrow>
   getBestMove rnd b ''easy'' wc =
     (case findTwoInARowGap b ''O'' wc of
        Some i \<Rightarrow> Inr (Some i)
      | None \<Rightarrow> Inr (arrayAt (findEmptySpots b)
                        \<lfloor>roundBinary64 (drawValue rnd * real (length (findEmptySpots b)))\<rfloor>))"
  using findTwoInARowGap_not_minus1[of b "''O''" wc]
  by (auto simp: getBestMove_def Let_def findStrategicMove_spec aiMarker_def split: option.splits)

lemma getBestMove_medium:
  "findEmptySpots b \<noteq> [] \<Longrightarrow>
   getBestMove rnd b ''medium'' wc =
     (case findTwoInARowGap b ''O'' wc of
        Some i \<Rightarrow> Inr (Some i)
      | None \<Rightarrow>
         (case findTwoInARowGap b ''X'' wc of
            Some i \<Rightarrow> Inr (Some i)
          | None \<Rightarrow>
              if arrayAt b 4 = Some '''' then Inr (Some 4)
              else Inr (arrayAt (findEmptySpots b)
                          \<lfloor>roundBinary64 (drawValue rnd * real (length (findEmptySpots b)))\<rfloor>)))"
  using findTwoInARowGap_not_minus1[of b "''O''" wc] findTwoInARowGap_not_minus1[of b "''X''" wc]
  by (auto simp: getBestMove_def Let_def findStrategicMove_spec aiMarker_def split: option.splits)

text \<open>Any other difficulty string falls through the same tests as easy.\<close>

lemma getBestMove_other:
  "findEmptySpots b \<noteq> [] \<Longrightarrow> difficulty \<noteq> ''hard'' \<Longrightarrow> difficulty \<noteq> ''medium'' \<Longrightarrow>
   getBestMove rnd b difficulty wc = getBestMove rnd b ''easy'' wc"
  by (simp add: getBestMove_def Let_def)

section \<open>What a non-terminal node returns\<close>

lemma findEmptySpots_sorted: "sorted_wrt (<) (findEmptySpots b)"
proof -
  have "sorted_wrt (<) (filter (\<lambda>k. b ! k = '''') [0..<length b])"
    by (rule sorted_wrt_filter) (rule sorted_wrt_upt)
  then show ?thesis
    by (simp add: findEmptySpots_conv sorted_wrt_map)
qed

lemma minimax_node_first:
  fixes b :: board and p :: string and d :: int and wc :: "condition list"
  assumes nt: "\<not> checkBoardWin b humanMarker wc" "\<not> checkBoardWin b aiMarker wc"
      "findEmptySpots b \<noteq> []"
  defines "cs \<equiv> \<lambda>j. minimaxScore (b[nat j := p]) (otherMarker p) (d + 1) wc"
  shows "\<exists>pre i post. findEmptySpots b = pre @ i # post
           \<and> minimax b p d wc = Inr (Some \<lparr>index = Some i, score = cs i\<rparr>)
           \<and> (p = aiMarker \<longrightarrow> (\<forall>j\<in>set pre. cs j < cs i) \<and> (\<forall>j\<in>set post. cs j \<le> cs i))
           \<and> (p \<noteq> aiMarker \<longrightarrow> (\<forall>j\<in>set pre. cs i < cs j) \<and> (\<forall>j\<in>set post. cs i \<le> cs j))"
proof -
  let ?f = "\<lambda>i. \<lparr>index = Some i, score = cs i\<rparr>"
  have cm: "childMoves b p d wc = map ?f (findEmptySpots b)"
    by (simp add: childMoves_def cs_def)
  then have ne: "childMoves b p d wc \<noteq> []" using nt(3) by simp
  show ?thesis
  proof (cases "p = aiMarker")
    case True
    from selectMax_first[OF ne] obtain pre' r post' where
      h: "childMoves b p d wc = pre' @ r # post'" "selectMax None None (childMoves b p d wc) = Some r"
         "\<forall>x\<in>set pre'. score x < score r" "\<forall>x\<in>set post'. score x \<le> score r" by blast
    from h(1) cm have "map ?f (findEmptySpots b) = pre' @ r # post'" by simp
    then obtain pre rest where s1: "findEmptySpots b = pre @ rest" "map ?f pre = pre'"
        "map ?f rest = r # post'"
      by (auto simp: map_eq_append_conv)
    then obtain i post where s2: "rest = i # post" "?f i = r" "map ?f post = post'"
      by (auto simp: map_eq_Cons_conv)
    have "minimax b p d wc = Inr (Some (?f i))"
      using minimax_node[OF nt, of p d] True h(2) s2(2) by simp
    moreover have "\<forall>j\<in>set pre. cs j < cs i" using h(3) s1(2) s2(2) by auto
    moreover have "\<forall>j\<in>set post. cs j \<le> cs i" using h(4) s2(2,3) by auto
    ultimately show ?thesis using True s1(1) s2(1) by blast
  next
    case False
    from selectMin_first[OF ne] obtain pre' r post' where
      h: "childMoves b p d wc = pre' @ r # post'" "selectMin None None (childMoves b p d wc) = Some r"
         "\<forall>x\<in>set pre'. score r < score x" "\<forall>x\<in>set post'. score r \<le> score x" by blast
    from h(1) cm have "map ?f (findEmptySpots b) = pre' @ r # post'" by simp
    then obtain pre rest where s1: "findEmptySpots b = pre @ rest" "map ?f pre = pre'"
        "map ?f rest = r # post'"
      by (auto simp: map_eq_append_conv)
    then obtain i post where s2: "rest = i # post" "?f i = r" "map ?f post = post'"
      by (auto simp: map_eq_Cons_conv)
    have "minimax b p d wc = Inr (Some (?f i))"
      using minimax_node[OF nt, of p d] False h(2) s2(2) by simp
    moreover have "\<forall>j\<in>set pre. cs i < cs j" using h(3) s1(2) s2(2) by auto
    moreover have "\<forall>j\<in>set post. cs i \<le> cs j" using h(4) s2(2,3) by auto
    ultimately show ?thesis using False s1(1) s2(1) by blast
  qed
qed

text \<open>The same fact with the order of the indices in place of the position in the list.\<close>

lemma minimax_node_best:
  fixes b :: board and p :: string and d :: int and wc :: "condition list"
  assumes nt: "\<not> checkBoardWin b humanMarker wc" "\<not> checkBoardWin b aiMarker wc"
      "findEmptySpots b \<noteq> []"
  defines "cs \<equiv> \<lambda>j. minimaxScore (b[nat j := p]) (otherMarker p) (d + 1) wc"
  shows "\<exists>i\<in>set (findEmptySpots b).
           minimax b p d wc = Inr (Some \<lparr>index = Some i, score = cs i\<rparr>)
           \<and> (p = aiMarker \<longrightarrow> (\<forall>j\<in>set (findEmptySpots b). cs j \<le> cs i \<and> (j < i \<longrightarrow> cs j < cs i)))
           \<and> (p \<noteq> aiMarker \<longrightarrow> (\<forall>j\<in>set (findEmptySpots b). cs i \<le> cs j \<and> (j < i \<longrightarrow> cs i < cs j)))"
proof -
  from minimax_node_first[OF nt, of p d] obtain pre i post where
    h: "findEmptySpots b = pre @ i # post"
       "minimax b p d wc = Inr (Some \<lparr>index = Some i, score = cs i\<rparr>)"
       "p = aiMarker \<longrightarrow> (\<forall>j\<in>set pre. cs j < cs i) \<and> (\<forall>j\<in>set post. cs j \<le> cs i)"
       "p \<noteq> aiMarker \<longrightarrow> (\<forall>j\<in>set pre. cs i < cs j) \<and> (\<forall>j\<in>set post. cs i \<le> cs j)"
    unfolding cs_def by blast
  from findEmptySpots_sorted[of b] h(1) have "sorted_wrt (<) (pre @ i # post)" by simp
  then have ord: "\<forall>j\<in>set post. i < j" "\<forall>j\<in>set pre. j < i"
    by (auto simp: sorted_wrt_append)
  have mem: "j \<in> set (findEmptySpots b) \<longleftrightarrow> j \<in> set pre \<or> j = i \<or> j \<in> set post" for j
    using h(1) by auto
  have "i \<in> set (findEmptySpots b)" using h(1) by simp
  moreover have "p = aiMarker \<longrightarrow> (\<forall>j\<in>set (findEmptySpots b). cs j \<le> cs i \<and> (j < i \<longrightarrow> cs j < cs i))"
    using h(3) ord by (fastforce simp: mem)
  moreover have "p \<noteq> aiMarker \<longrightarrow> (\<forall>j\<in>set (findEmptySpots b). cs i \<le> cs j \<and> (j < i \<longrightarrow> cs i < cs j))"
    using h(4) ord by (fastforce simp: mem)
  ultimately show ?thesis using h(2) by blast
qed

lemma minimaxIndex_node:
  assumes "\<not> checkBoardWin b humanMarker wc" "\<not> checkBoardWin b aiMarker wc"
      "findEmptySpots b \<noteq> []"
  shows "\<exists>i\<in>set (findEmptySpots b). minimaxIndex b p d wc = Some i"
  using minimax_node_best[OF assms, of p d] by (auto simp: minimaxIndex_def)

lemma findEmptySpots_distinct: "distinct (findEmptySpots b)"
  using findEmptySpots_sorted[of b] by (simp add: strict_sorted_iff)

section \<open>The sign of the score is the forced outcome\<close>

lemma forcesWin_human_won:
  "checkBoardWin b humanMarker winningConditions \<Longrightarrow> forcesWin who b p = (who = humanMarker)"
  by (subst forcesWin.simps) simp

lemma forcesWin_ai_won:
  "\<not> checkBoardWin b humanMarker winningConditions \<Longrightarrow> checkBoardWin b aiMarker winningConditions \<Longrightarrow>
   forcesWin who b p = (who = aiMarker)"
  by (subst forcesWin.simps) simp

lemma forcesWin_draw:
  "\<not> checkBoardWin b humanMarker winningConditions \<Longrightarrow> \<not> checkBoardWin b aiMarker winningConditions \<Longrightarrow>
   findEmptySpots b = [] \<Longrightarrow> forcesWin who b p = False"
  by (subst forcesWin.simps) simp

lemma forcesWin_node:
  "\<not> checkBoardWin b humanMarker winningConditions \<Longrightarrow> \<not> checkBoardWin b aiMarker winningConditions \<Longrightarrow>
   findEmptySpots b \<noteq> [] \<Longrightarrow>
   forcesWin who b p =
     (if p = who then (\<exists>i\<in>set (findEmptySpots b). forcesWin who (b[nat i := p]) (otherMarker p))
      else (\<forall>i\<in>set (findEmptySpots b). forcesWin who (b[nat i := p]) (otherMarker p)))"
  by (subst forcesWin.simps) (simp add: list_ex_iff list_all_iff)

lemma markers_distinct:
  "aiMarker \<noteq> humanMarker" "humanMarker \<noteq> aiMarker" "aiMarker \<noteq> ''''" "humanMarker \<noteq> ''''"
  by (simp_all add: aiMarker_def humanMarker_def)

lemma score_sign:
  assumes "p = aiMarker \<or> p = humanMarker" "0 \<le> d"
    and "d + int (length (findEmptySpots b)) < 100"
  shows "(minimaxScore b p d winningConditions < 0 \<longleftrightarrow> forcesWin humanMarker b p)
       \<and> (0 < minimaxScore b p d winningConditions \<longleftrightarrow> forcesWin aiMarker b p)"
  using assms
proof (induction "length (findEmptySpots b)" arbitrary: b p d)
  case 0
  then have e: "findEmptySpots b = []" by simp
  consider (x) "checkBoardWin b humanMarker winningConditions"
    | (o) "\<not> checkBoardWin b humanMarker winningConditions" "checkBoardWin b aiMarker winningConditions"
    | (n) "\<not> checkBoardWin b humanMarker winningConditions" "\<not> checkBoardWin b aiMarker winningConditions"
    by blast
  then show ?case
  proof cases
    case x
    with 0 show ?thesis
      by (simp add: minimaxScore_def minimax_human_won forcesWin_human_won markers_distinct)
  next
    case o
    with 0 show ?thesis
      by (simp add: minimaxScore_def minimax_ai_won forcesWin_ai_won markers_distinct)
  next
    case n
    with e show ?thesis
      by (simp add: minimaxScore_def minimax_draw forcesWin_draw)
  qed
next
  case (Suc n)
  then have ne: "findEmptySpots b \<noteq> []" by auto
  consider (x) "checkBoardWin b humanMarker winningConditions"
    | (o) "\<not> checkBoardWin b humanMarker winningConditions" "checkBoardWin b aiMarker winningConditions"
    | (n) "\<not> checkBoardWin b humanMarker winningConditions" "\<not> checkBoardWin b aiMarker winningConditions"
    by blast
  then show ?case
  proof cases
    case x
    with Suc.prems show ?thesis
      by (simp add: minimaxScore_def minimax_human_won forcesWin_human_won markers_distinct)
  next
    case o
    with Suc.prems show ?thesis
      by (simp add: minimaxScore_def minimax_ai_won forcesWin_ai_won markers_distinct)
  next
    case n
    let ?q = "otherMarker p"
    let ?cs = "\<lambda>j. minimaxScore (b[nat j := p]) ?q (d + 1) winningConditions"
    from Suc.prems(1) have pne: "p \<noteq> ''''" using markers_distinct by auto
    from Suc.prems(1) have q: "?q = aiMarker \<or> ?q = humanMarker" by (simp add: otherMarker_def)
    have IH: "(?cs j < 0 \<longleftrightarrow> forcesWin humanMarker (b[nat j := p]) ?q)
            \<and> (0 < ?cs j \<longleftrightarrow> forcesWin aiMarker (b[nat j := p]) ?q)"
      if j: "j \<in> set (findEmptySpots b)" for j
    proof -
      from empties_decrease[OF j pne] Suc.hyps(2)
      have len: "n = length (findEmptySpots (b[nat j := p]))" by simp
      with Suc.hyps(2) Suc.prems(3)
      have "d + 1 + int (length (findEmptySpots (b[nat j := p]))) < 100" by simp
      with Suc.hyps(1)[OF len q] Suc.prems(2) show ?thesis by simp
    qed
    from minimax_node_best[OF n ne, of p d] obtain i where
      i: "i \<in> set (findEmptySpots b)"
         "minimax b p d winningConditions = Inr (Some \<lparr>index = Some i, score = ?cs i\<rparr>)"
         "p = aiMarker \<longrightarrow> (\<forall>j\<in>set (findEmptySpots b). ?cs j \<le> ?cs i)"
         "p \<noteq> aiMarker \<longrightarrow> (\<forall>j\<in>set (findEmptySpots b). ?cs i \<le> ?cs j)"
      by blast
    from i(2) have sc: "minimaxScore b p d winningConditions = ?cs i"
      by (simp add: minimaxScore_def)
    show ?thesis
    proof (cases "p = aiMarker")
      case True
      with i(3) have mx: "\<forall>j\<in>set (findEmptySpots b). ?cs j \<le> ?cs i" by simp
      have "?cs i < 0 \<longleftrightarrow> (\<forall>j\<in>set (findEmptySpots b). ?cs j < 0)"
        using mx i(1) by fastforce
      moreover have "0 < ?cs i \<longleftrightarrow> (\<exists>j\<in>set (findEmptySpots b). 0 < ?cs j)"
        using mx i(1) by fastforce
      ultimately have "(minimaxScore b p d winningConditions < 0 \<longleftrightarrow>
            (\<forall>j\<in>set (findEmptySpots b). forcesWin humanMarker (b[nat j := p]) ?q))
          \<and> (0 < minimaxScore b p d winningConditions \<longleftrightarrow>
            (\<exists>j\<in>set (findEmptySpots b). forcesWin aiMarker (b[nat j := p]) ?q))"
        using IH sc by simp
      moreover have "forcesWin humanMarker b p \<longleftrightarrow>
          (\<forall>j\<in>set (findEmptySpots b). forcesWin humanMarker (b[nat j := p]) ?q)"
        using True markers_distinct by (simp add: forcesWin_node[OF n ne])
      moreover have "forcesWin aiMarker b p \<longleftrightarrow>
          (\<exists>j\<in>set (findEmptySpots b). forcesWin aiMarker (b[nat j := p]) ?q)"
        using True by (simp add: forcesWin_node[OF n ne])
      ultimately show ?thesis by simp
    next
      case False
      with Suc.prems(1) have ph: "p = humanMarker" by simp
      from False i(4) have mn: "\<forall>j\<in>set (findEmptySpots b). ?cs i \<le> ?cs j" by simp
      have "?cs i < 0 \<longleftrightarrow> (\<exists>j\<in>set (findEmptySpots b). ?cs j < 0)"
        using mn i(1) by fastforce
      moreover have "0 < ?cs i \<longleftrightarrow> (\<forall>j\<in>set (findEmptySpots b). 0 < ?cs j)"
        using mn i(1) by fastforce
      ultimately have "(minimaxScore b p d winningConditions < 0 \<longleftrightarrow>
            (\<exists>j\<in>set (findEmptySpots b). forcesWin humanMarker (b[nat j := p]) ?q))
          \<and> (0 < minimaxScore b p d winningConditions \<longleftrightarrow>
            (\<forall>j\<in>set (findEmptySpots b). forcesWin aiMarker (b[nat j := p]) ?q))"
        using IH sc by simp
      moreover have "forcesWin humanMarker b p \<longleftrightarrow>
          (\<exists>j\<in>set (findEmptySpots b). forcesWin humanMarker (b[nat j := p]) ?q)"
        using ph by (simp add: forcesWin_node[OF n ne])
      moreover have "forcesWin aiMarker b p \<longleftrightarrow>
          (\<forall>j\<in>set (findEmptySpots b). forcesWin aiMarker (b[nat j := p]) ?q)"
        using ph markers_distinct by (simp add: forcesWin_node[OF n ne])
      ultimately show ?thesis by simp
    qed
  qed
qed

section \<open>The search on the store: frame and agreement\<close>

lemma copy_and_write:
  "(h @ [h ! a])[length h := ((h @ [h ! a]) ! length h)[k := p]] = h @ [(h ! a)[k := p]]"
  by simp

lemma movesH_frame:
  assumes call: "\<And>h b r h'. call h b = Some (r, h') \<Longrightarrow> \<exists>ext. h' = h @ ext"
  shows "movesH call h a p is = Some (rs, h') \<Longrightarrow> \<exists>ext. h' = h @ ext"
proof (induction "is" arbitrary: h rs h')
  case Nil
  then show ?case by simp
next
  case (Cons i rest)
  let ?h2 = "h @ [(h ! a)[nat i := p]]"
  from Cons.prems obtain r h3 where c: "call ?h2 (length h) = Some (r, h3)"
    by (auto simp: Let_def split: option.splits)
  from call[OF c] obtain e1 where h3: "h3 = ?h2 @ e1" by blast
  show ?case
  proof (cases "scoredMove i r")
    case (Inl e)
    with Cons.prems c have "h' = h3" by (simp add: Let_def)
    with h3 show ?thesis by simp
  next
    case (Inr m)
    with Cons.prems c obtain rs' where "movesH call h3 a p rest = Some (rs', h')"
      by (auto simp: Let_def split: option.splits sum.splits)
    from Cons.IH[OF this] obtain e2 where "h' = h3 @ e2" by blast
    with h3 show ?thesis by simp
  qed
qed

lemma minimaxH_frame:
  "minimaxH n h a p d wc = Some (r, h') \<Longrightarrow> \<exists>ext. h' = h @ ext"
proof (induction n arbitrary: h a p d r h')
  case 0
  then show ?case by simp
next
  case (Suc n)
  let ?call = "\<lambda>h' nextBoard.
                   if p = aiMarker
                   then minimaxH n h' nextBoard humanMarker (d + 1) wc
                   else minimaxH n h' nextBoard aiMarker (d + 1) wc"
  have call: "\<exists>ext. h2 = h1 @ ext" if "?call h1 b = Some (r1, h2)" for h1 b r1 h2
    using that Suc.IH by (cases "p = aiMarker") auto
  have loop: "\<exists>ext. h2 = h @ ext"
    if "movesH ?call h a p (findEmptySpots (h ! a)) = Some (rs, h2)" for rs h2
    using movesH_frame[of ?call, OF call that] .
  from Suc.prems loop show ?case
    by (auto split: if_splits option.splits sum.splits)
qed

lemma movesH_agree:
  assumes call: "\<And>h i. i \<in> set is \<Longrightarrow>
      \<exists>h'. call (h @ [b[nat i := p]]) (length h) = Some (minimax (b[nat i := p]) q (d + 1) wc, h')
            \<and> (\<exists>ext. h' = (h @ [b[nat i := p]]) @ ext)"
    and a: "a < length h" "h ! a = b"
  shows "\<exists>h'. movesH call h a p is
            = Some (Inr (map (\<lambda>i. \<lparr>index = Some i, score = minimaxScore (b[nat i := p]) q (d + 1) wc\<rparr>) is), h')
          \<and> (\<exists>ext. h' = h @ ext)"
  using assms
proof (induction "is" arbitrary: h)
  case Nil
  then show ?case by simp
next
  case (Cons i rest)
  let ?h2 = "h @ [b[nat i := p]]"
  from Cons.prems(1)[of i h] obtain h3 e1 where
    c: "call ?h2 (length h) = Some (minimax (b[nat i := p]) q (d + 1) wc, h3)" and h3: "h3 = ?h2 @ e1"
    by auto
  from h3 Cons.prems(2,3) have a3: "a < length h3" "h3 ! a = b"
    by (simp_all add: nth_append)
  have "\<exists>h'. movesH call h3 a p rest
            = Some (Inr (map (\<lambda>i. \<lparr>index = Some i, score = minimaxScore (b[nat i := p]) q (d + 1) wc\<rparr>) rest), h')
          \<and> (\<exists>ext. h' = h3 @ ext)"
    by (rule Cons.IH[OF _ a3]) (use Cons.prems(1) in auto)
  then obtain h' e2 where
    r: "movesH call h3 a p rest
          = Some (Inr (map (\<lambda>i. \<lparr>index = Some i, score = minimaxScore (b[nat i := p]) q (d + 1) wc\<rparr>) rest), h')"
    and h': "h' = h3 @ e2" by blast
  obtain m where m: "minimax (b[nat i := p]) q (d + 1) wc = Inr (Some m)"
    using minimax_total by blast
  then have sm: "scoredMove i (minimax (b[nat i := p]) q (d + 1) wc)
      = Inr \<lparr>index = Some i, score = minimaxScore (b[nat i := p]) q (d + 1) wc\<rparr>"
    by (simp add: scoredMove_def minimaxScore_def)
  have "movesH call h a p (i # rest)
      = Some (Inr (map (\<lambda>i. \<lparr>index = Some i, score = minimaxScore (b[nat i := p]) q (d + 1) wc\<rparr>) (i # rest)), h')"
    using c r sm Cons.prems(3) by (simp add: Let_def)
  moreover have "\<exists>ext. h' = h @ ext" using h3 h' by simp
  ultimately show ?case by blast
qed

lemma minimaxH_agree:
  "a < length h \<Longrightarrow> length (findEmptySpots (h ! a)) + (if p = '''' then 1 else 0) < n \<Longrightarrow>
   \<exists>h'. minimaxH n h a p d wc = Some (minimax (h ! a) p d wc, h') \<and> (\<exists>ext. h' = h @ ext)"
proof (induction n arbitrary: h a p d)
  case 0
  then show ?case by simp
next
  case (Suc n)
  let ?b = "h ! a"
  let ?q = "otherMarker p"
  consider (x) "checkBoardWin ?b humanMarker wc"
    | (o) "\<not> checkBoardWin ?b humanMarker wc" "checkBoardWin ?b aiMarker wc"
    | (dr) "\<not> checkBoardWin ?b humanMarker wc" "\<not> checkBoardWin ?b aiMarker wc"
        "findEmptySpots ?b = []"
    | (nt) "\<not> checkBoardWin ?b humanMarker wc" "\<not> checkBoardWin ?b aiMarker wc"
        "findEmptySpots ?b \<noteq> []"
    by blast
  then show ?case
  proof cases
    case x then show ?thesis by (simp add: minimax_human_won scores_def)
  next
    case o then show ?thesis by (simp add: minimax_ai_won scores_def)
  next
    case dr then show ?thesis by (simp add: minimax_draw scores_def)
  next
    case nt
    let ?call = "\<lambda>h' nextBoard.
                   if p = aiMarker
                   then minimaxH n h' nextBoard humanMarker (d + 1) wc
                   else minimaxH n h' nextBoard aiMarker (d + 1) wc"
    let ?call' = "\<lambda>h' nextBoard. minimaxH n h' nextBoard ?q (d + 1) wc"
    have calleq: "?call = ?call'"
      by (simp add: otherMarker_def fun_eq_iff)
    have q: "?q \<noteq> ''''" by (simp add: otherMarker_def aiMarker_def humanMarker_def)
    have call: "\<exists>h'. ?call' (h1 @ [?b[nat i := p]]) (length h1)
                     = Some (minimax (?b[nat i := p]) ?q (d + 1) wc, h')
                   \<and> (\<exists>ext. h' = (h1 @ [?b[nat i := p]]) @ ext)"
      if i: "i \<in> set (findEmptySpots ?b)" for h1 i
    proof -
      have fuel: "length (findEmptySpots (?b[nat i := p])) + (if ?q = '''' then 1 else 0) < n"
      proof (cases "p = ''''")
        case True
        with Suc.prems(2) empties_same[OF i] q show ?thesis by simp
      next
        case False
        with Suc.prems(2) empties_decrease[OF i False] q show ?thesis by simp
      qed
      have "length h1 < length (h1 @ [?b[nat i := p]])" by simp
      from Suc.IH[OF this, of ?q "d + 1"] fuel show ?thesis
        by simp
    qed
    from movesH_agree[of "findEmptySpots ?b" ?call' ?b p ?q d wc a h, OF call Suc.prems(1)]
    obtain h' where
      r: "movesH ?call' h a p (findEmptySpots ?b) = Some (Inr (childMoves ?b p d wc), h')"
      and f: "\<exists>ext. h' = h @ ext"
      by (auto simp: childMoves_def)
    have "minimaxH (Suc n) h a p d wc
        = (case movesH ?call h a p (findEmptySpots ?b) of
             None \<Rightarrow> None
           | Some (Inl e, h') \<Rightarrow> Some (Inl e, h')
           | Some (Inr moves, h') \<Rightarrow>
               Some (if p = aiMarker
                     then Inr (selectMax None None moves)
                     else Inr (selectMin None None moves), h'))"
      using nt by (simp only: minimaxH.simps length_0_conv if_False)
    then have "minimaxH (Suc n) h a p d wc
        = Some (if p = aiMarker then Inr (selectMax None None (childMoves ?b p d wc))
                else Inr (selectMin None None (childMoves ?b p d wc)), h')"
      by (simp only: calleq r option.case prod.case sum.case)
    with f show ?thesis by (simp add: minimax_node[OF nt] split: if_splits)
  qed
qed

lemma getBestMoveH_agree:
  assumes "board < length h" and "length (findEmptySpots (h ! board)) < n"
  shows "\<exists>h'. getBestMoveH n rnd h board difficulty wc
             = Some (getBestMove rnd (h ! board) difficulty wc, h')
           \<and> (\<exists>ext. h' = h @ ext)"
proof (cases "difficulty = ''hard'' \<and> findEmptySpots (h ! board) \<noteq> []")
  case True
  have "length (findEmptySpots (h ! board)) + (if aiMarker = '''' then 1 else 0) < n"
    using assms(2) by (simp add: aiMarker_def)
  from minimaxH_agree[OF assms(1) this, of 0 wc] obtain h' where
    "minimaxH n h board aiMarker 0 wc = Some (minimax (h ! board) aiMarker 0 wc, h')"
    "\<exists>ext. h' = h @ ext" by blast
  with True show ?thesis
    by (simp add: getBestMoveH_def getBestMove_def)
next
  case False
  then have "getBestMoveH n rnd h board difficulty wc
      = Some (getBestMove rnd (h ! board) difficulty wc, h)"
    by (auto simp: getBestMoveH_def getBestMove_def Let_def)
  then show ?thesis by simp
qed

section \<open>Forced wins on nine cells, by rewriting\<close>

lemma anyMove_iff:
  "anyMove who q xs \<longleftrightarrow> (\<exists>(c, nb)\<in>set xs. c = '''' \<and> forcesWin who nb q)"
  by (induction who q xs rule: anyMove.induct) auto

lemma everyMove_iff:
  "everyMove who q found xs \<longleftrightarrow>
     (\<forall>(c, nb)\<in>set xs. c = '''' \<longrightarrow> forcesWin who nb q) \<and> (found \<or> (\<exists>(c, nb)\<in>set xs. c = ''''))"
  by (induction who q found xs rule: everyMove.induct) auto

lemma line9_cells:
  "line9 m [c0, c1, c2, c3, c4, c5, c6, c7, c8] =
     (if c0 = m \<and> c1 = m \<and> c2 = m then True
      else if c3 = m \<and> c4 = m \<and> c5 = m then True
      else if c6 = m \<and> c7 = m \<and> c8 = m then True
      else if c0 = m \<and> c3 = m \<and> c6 = m then True
      else if c1 = m \<and> c4 = m \<and> c7 = m then True
      else if c2 = m \<and> c5 = m \<and> c8 = m then True
      else if c0 = m \<and> c4 = m \<and> c8 = m then True
      else c2 = m \<and> c4 = m \<and> c6 = m)"
  by (simp add: line9_def)

lemma moves9_cells:
  "moves9 p [c0, c1, c2, c3, c4, c5, c6, c7, c8] =
     [(c4, [c0, c1, c2, c3, p, c5, c6, c7, c8]),
      (c0, [p, c1, c2, c3, c4, c5, c6, c7, c8]),
      (c2, [c0, c1, p, c3, c4, c5, c6, c7, c8]),
      (c6, [c0, c1, c2, c3, c4, c5, p, c7, c8]),
      (c8, [c0, c1, c2, c3, c4, c5, c6, c7, p]),
      (c1, [c0, p, c2, c3, c4, c5, c6, c7, c8]),
      (c3, [c0, c1, c2, p, c4, c5, c6, c7, c8]),
      (c5, [c0, c1, c2, c3, c4, p, c6, c7, c8]),
      (c7, [c0, c1, c2, c3, c4, c5, c6, p, c8])]"
  by (simp add: moves9_def)

lemma checkBoardWin9:
  "checkBoardWin [c0, c1, c2, c3, c4, c5, c6, c7, c8] m winningConditions
     = line9 m [c0, c1, c2, c3, c4, c5, c6, c7, c8]"
  by (simp add: winningConditions_def arrayAt_def line9_cells)

lemma lt9:
  "(k::nat) < 9 \<longleftrightarrow> k = 0 \<or> k = 1 \<or> k = 2 \<or> k = 3 \<or> k = 4 \<or> k = 5 \<or> k = 6 \<or> k = 7 \<or> k = 8"
  by (simp add: eval_nat_numeral less_Suc_eq)

lemma ex9: "(\<exists>k<9. Q k) \<longleftrightarrow> Q 0 \<or> Q 1 \<or> Q 2 \<or> Q 3 \<or> Q 4 \<or> Q 5 \<or> Q 6 \<or> Q 7 \<or> Q (8::nat)"
  unfolding lt9 by blast

lemma bex_findEmptySpots:
  "(\<exists>i\<in>set (findEmptySpots b). Q i) \<longleftrightarrow> (\<exists>k<length b. b ! k = '''' \<and> Q (int k))"
  by (auto simp: findEmptySpots_conv)

lemma empties9:
  "(\<exists>i\<in>set (findEmptySpots [c0, c1, c2, c3, c4, c5, c6, c7, c8]). Q i) \<longleftrightarrow>
     (c0 = '''' \<and> Q 0) \<or> (c1 = '''' \<and> Q 1) \<or> (c2 = '''' \<and> Q 2) \<or> (c3 = '''' \<and> Q 3)
     \<or> (c4 = '''' \<and> Q 4) \<or> (c5 = '''' \<and> Q 5) \<or> (c6 = '''' \<and> Q 6) \<or> (c7 = '''' \<and> Q 7)
     \<or> (c8 = '''' \<and> Q 8)"
proof -
  have l: "length [c0, c1, c2, c3, c4, c5, c6, c7, c8] = 9" by simp
  show ?thesis
    unfolding bex_findEmptySpots l ex9 by simp
qed

lemma forcesWin9:
  "forcesWin who [c0, c1, c2, c3, c4, c5, c6, c7, c8] p =
     (if line9 ''X'' [c0, c1, c2, c3, c4, c5, c6, c7, c8] then who = ''X''
      else if line9 ''O'' [c0, c1, c2, c3, c4, c5, c6, c7, c8] then who = ''O''
      else if p = who then anyMove who (otherMarker p) (moves9 p [c0, c1, c2, c3, c4, c5, c6, c7, c8])
      else everyMove who (otherMarker p) False (moves9 p [c0, c1, c2, c3, c4, c5, c6, c7, c8]))"
proof -
  let ?b = "[c0, c1, c2, c3, c4, c5, c6, c7, c8]"
  let ?F = "\<lambda>i. forcesWin who (?b[nat i := p]) (otherMarker p)"
  have x: "checkBoardWin ?b humanMarker winningConditions = line9 ''X'' [c0, c1, c2, c3, c4, c5, c6, c7, c8]"
    by (simp only: checkBoardWin9 humanMarker_def)
  have o: "checkBoardWin ?b aiMarker winningConditions = line9 ''O'' [c0, c1, c2, c3, c4, c5, c6, c7, c8]"
    by (simp only: checkBoardWin9 aiMarker_def)
  have any: "anyMove who (otherMarker p) (moves9 p [c0, c1, c2, c3, c4, c5, c6, c7, c8])
      \<longleftrightarrow> (\<exists>i\<in>set (findEmptySpots ?b). ?F i)"
    unfolding anyMove_iff empties9 by (simp add: moves9_cells) blast
  have every: "everyMove who (otherMarker p) False (moves9 p [c0, c1, c2, c3, c4, c5, c6, c7, c8])
      \<longleftrightarrow> (\<forall>i\<in>set (findEmptySpots ?b). ?F i) \<and> findEmptySpots ?b \<noteq> []"
  proof -
    have "(\<forall>i\<in>set (findEmptySpots ?b). ?F i) \<longleftrightarrow> \<not> (\<exists>i\<in>set (findEmptySpots ?b). \<not> ?F i)" by blast
    moreover have "findEmptySpots ?b \<noteq> [] \<longleftrightarrow> (\<exists>i\<in>set (findEmptySpots ?b). True)"
      by (cases "findEmptySpots ?b") auto
    ultimately show ?thesis
      unfolding everyMove_iff empties9 by (simp add: moves9_cells) blast
  qed
  have unfold: "forcesWin who ?b p =
     (if line9 ''X'' [c0, c1, c2, c3, c4, c5, c6, c7, c8] then who = humanMarker
      else if line9 ''O'' [c0, c1, c2, c3, c4, c5, c6, c7, c8] then who = aiMarker
      else if findEmptySpots ?b = [] then False
      else if p = who then (\<exists>i\<in>set (findEmptySpots ?b). ?F i)
      else (\<forall>i\<in>set (findEmptySpots ?b). ?F i))"
    by (subst forcesWin.simps) (simp only: x o list_ex_iff list_all_iff)
  show ?thesis
  proof (cases "findEmptySpots ?b = []")
    case True
    then show ?thesis
      by (simp only: unfold any every) (simp add: humanMarker_def aiMarker_def)
  next
    case False
    then show ?thesis
      by (simp only: unfold any every) (simp add: humanMarker_def aiMarker_def)
  qed
qed

section \<open>The opening moves\<close>

lemma marker_eqs:
  "(''X'' = ''O'') = False" "(''O'' = ''X'') = False"
  "(''X'' = '''') = False" "(''O'' = '''') = False"
  "('''' = ''X'') = False" "('''' = ''O'') = False"
  by simp_all

lemma otherMarker_eqs: "otherMarker ''X'' = ''O''" "otherMarker ''O'' = ''X''"
  by (simp_all add: otherMarker_def aiMarker_def humanMarker_def)

lemmas eval9 = forcesWin9 line9_cells moves9_cells anyMove.simps everyMove.simps
  marker_eqs otherMarker_eqs if_True if_False simp_thms

text \<open>After the AI opens in the corner 0 the opponent cannot force a win.\<close>

lemma corner_holds:
  "\<not> forcesWin ''X'' [''O'', '''', '''', '''', '''', '''', '''', '''', ''''] ''X''"
  by (simp only: eval9 cong: if_weak_cong)

text \<open>After no opening move can the AI force a win.\<close>

lemma opening0: "\<not> forcesWin ''O'' [''O'', '''', '''', '''', '''', '''', '''', '''', ''''] ''X''"
  by (simp only: eval9 cong: if_weak_cong)

lemma opening1: "\<not> forcesWin ''O'' ['''', ''O'', '''', '''', '''', '''', '''', '''', ''''] ''X''"
  by (simp only: eval9 cong: if_weak_cong)

lemma opening2: "\<not> forcesWin ''O'' ['''', '''', ''O'', '''', '''', '''', '''', '''', ''''] ''X''"
  by (simp only: eval9 cong: if_weak_cong)

lemma opening3: "\<not> forcesWin ''O'' ['''', '''', '''', ''O'', '''', '''', '''', '''', ''''] ''X''"
  by (simp only: eval9 cong: if_weak_cong)

lemma opening4: "\<not> forcesWin ''O'' ['''', '''', '''', '''', ''O'', '''', '''', '''', ''''] ''X''"
  by (simp only: eval9 cong: if_weak_cong)

lemma opening5: "\<not> forcesWin ''O'' ['''', '''', '''', '''', '''', ''O'', '''', '''', ''''] ''X''"
  by (simp only: eval9 cong: if_weak_cong)

lemma opening6: "\<not> forcesWin ''O'' ['''', '''', '''', '''', '''', '''', ''O'', '''', ''''] ''X''"
  by (simp only: eval9 cong: if_weak_cong)

lemma opening7: "\<not> forcesWin ''O'' ['''', '''', '''', '''', '''', '''', '''', ''O'', ''''] ''X''"
  by (simp only: eval9 cong: if_weak_cong)

lemma opening8: "\<not> forcesWin ''O'' ['''', '''', '''', '''', '''', '''', '''', '''', ''O''] ''X''"
  by (simp only: eval9 cong: if_weak_cong)

lemma empty_board_spots:
  "findEmptySpots ['''', '''', '''', '''', '''', '''', '''', '''', ''''] = [0, 1, 2, 3, 4, 5, 6, 7, 8]"
  by (simp add: findEmptySpots_def)

lemma empty_board_hard:
  "minimaxIndex ['''', '''', '''', '''', '''', '''', '''', '''', ''''] aiMarker 0 winningConditions = Some 0"
proof -
  let ?b = "['''', '''', '''', '''', '''', '''', '''', '''', '''']"
  let ?cs = "\<lambda>j. minimaxScore (?b[nat j := aiMarker]) (otherMarker aiMarker) (0 + 1) winningConditions"
  have nt: "\<not> checkBoardWin ?b humanMarker winningConditions"
      "\<not> checkBoardWin ?b aiMarker winningConditions" "findEmptySpots ?b \<noteq> []"
    by (simp_all add: checkBoardWin9 line9_cells humanMarker_def aiMarker_def empty_board_spots)
  have sign: "(?cs j < 0 \<longleftrightarrow> forcesWin ''X'' (?b[nat j := ''O'']) ''X'')
       \<and> (0 < ?cs j \<longleftrightarrow> forcesWin ''O'' (?b[nat j := ''O'']) ''X'')"
    if "j \<in> set (findEmptySpots ?b)" for j
  proof -
    have "(1::int) + int (length (findEmptySpots (?b[nat j := ''O'']))) < 100"
      using empties_decrease[OF that, of "''O''"] by (simp add: empty_board_spots)
    from score_sign[of humanMarker 1 "?b[nat j := ''O'']", OF _ _ this]
    show ?thesis by (simp add: humanMarker_def aiMarker_def otherMarker_def)
  qed
  have le: "?cs j \<le> 0" if "j \<in> set (findEmptySpots ?b)" for j
  proof -
    from that have "j = 0 \<or> j = 1 \<or> j = 2 \<or> j = 3 \<or> j = 4 \<or> j = 5 \<or> j = 6 \<or> j = 7 \<or> j = 8"
      by (simp add: empty_board_spots)
    then have "\<not> forcesWin ''O'' (?b[nat j := ''O'']) ''X''"
      using opening0 opening1 opening2 opening3 opening4 opening5 opening6 opening7 opening8
      by (elim disjE) simp_all
    with sign[OF that] show ?thesis by simp
  qed
  have z: "0 \<in> set (findEmptySpots ?b)" by (simp add: empty_board_spots)
  have ge: "0 \<le> ?cs 0"
    using sign[OF z] corner_holds by simp
  from minimax_node_best[OF nt, of aiMarker 0] obtain i where
    i: "i \<in> set (findEmptySpots ?b)"
       "minimax ?b aiMarker 0 winningConditions = Inr (Some \<lparr>index = Some i, score = ?cs i\<rparr>)"
       "\<forall>j\<in>set (findEmptySpots ?b). ?cs j \<le> ?cs i \<and> (j < i \<longrightarrow> ?cs j < ?cs i)"
    by auto
  have "i = 0"
  proof (rule ccontr)
    assume "i \<noteq> 0"
    with i(1) have "0 < i" by (auto simp: empty_board_spots)
    with i(3) z have "?cs 0 < ?cs i" by blast
    with le[OF i(1)] ge show False by simp
  qed
  with i(2) show ?thesis by (simp add: minimaxIndex_def)
qed

section \<open>The claims\<close>

text \<open>
  C1, as amended. For every board of nine cells with at least one empty cell and no winner
  yet, from which the opponent cannot already force a win with the AI to move, the move
  returned by \<open>getBestMove(board, "hard")\<close> is an empty cell and leads to a position from
  which the opponent, to move, cannot force a win.
\<close>

theorem C1_hard_not_forced_loss:
  assumes "length board = 9" and "'''' \<in> set board"
    and "\<not> completedLine board ''X''" and "\<not> completedLine board ''O''"
    and "\<not> forcesWin ''X'' board ''O''"
  shows "\<exists>m\<in>set (findEmptySpots board).
           getBestMove rnd board ''hard'' winningConditions = Inr (Some m)
           \<and> \<not> forcesWin ''X'' (board[nat m := ''O'']) ''X''"
proof -
  let ?cs = "\<lambda>j. minimaxScore (board[nat j := aiMarker]) (otherMarker aiMarker) (0 + 1) winningConditions"
  have nt: "\<not> checkBoardWin board humanMarker winningConditions"
      "\<not> checkBoardWin board aiMarker winningConditions" "findEmptySpots board \<noteq> []"
    using assms(2,3,4)
    by (simp_all add: checkBoardWin_completedLine humanMarker_def aiMarker_def findEmptySpots_Nil)
  have sign: "?cs j < 0 \<longleftrightarrow> forcesWin ''X'' (board[nat j := ''O'']) ''X''"
    if "j \<in> set (findEmptySpots board)" for j
  proof -
    have "length (findEmptySpots board) \<le> 9"
      using assms(1) by (simp add: length_findEmptySpots) (metis assms(1) length_filter_le)
    then have "(1::int) + int (length (findEmptySpots (board[nat j := ''O'']))) < 100"
      using empties_decrease[OF that, of "''O''"] by simp
    from score_sign[of humanMarker 1 "board[nat j := ''O'']", OF _ _ this]
    show ?thesis by (simp add: humanMarker_def aiMarker_def otherMarker_def)
  qed
  from assms(5) obtain j where j: "j \<in> set (findEmptySpots board)"
      "\<not> forcesWin ''X'' (board[nat j := ''O'']) ''X''"
    by (auto simp: forcesWin_node[OF nt] otherMarker_eqs aiMarker_def)
  from minimax_node_best[OF nt, of aiMarker 0] obtain i where
    i: "i \<in> set (findEmptySpots board)"
       "minimax board aiMarker 0 winningConditions = Inr (Some \<lparr>index = Some i, score = ?cs i\<rparr>)"
       "\<forall>j\<in>set (findEmptySpots board). ?cs j \<le> ?cs i"
    by auto
  from j sign[OF j(1)] have "0 \<le> ?cs j" by simp
  with i(3) j(1) have "0 \<le> ?cs i" by force
  with sign[OF i(1)] have "\<not> forcesWin ''X'' (board[nat i := ''O'']) ''X''" by simp
  moreover from i(2) have "getBestMove rnd board ''hard'' winningConditions = Inr (Some i)"
    by (simp add: getBestMove_hard[OF nt(3)] minimaxIndex_def)
  ultimately show ?thesis using i(1) by blast
qed

theorem C1_counterexample:
  "length [''X'', ''O'', ''X'', ''O'', ''X'', '''', '''', '''', ''''] = 9
   \<and> '''' \<in> set [''X'', ''O'', ''X'', ''O'', ''X'', '''', '''', '''', '''']
   \<and> \<not> completedLine [''X'', ''O'', ''X'', ''O'', ''X'', '''', '''', '''', ''''] ''X''
   \<and> \<not> completedLine [''X'', ''O'', ''X'', ''O'', ''X'', '''', '''', '''', ''''] ''O''
   \<and> getBestMove 0 [''X'', ''O'', ''X'', ''O'', ''X'', '''', '''', '''', ''''] ''hard'' winningConditions
       = Inr (Some 5)
   \<and> forcesWin ''X'' ([''X'', ''O'', ''X'', ''O'', ''X'', '''', '''', '''', ''''][nat 5 := ''O'']) ''X''"
proof -
  let ?b = "[''X'', ''O'', ''X'', ''O'', ''X'', '''', '''', '''', '''']"
  have x: "\<not> completedLine ?b ''X''"
    by (simp add: completedLine_def winningConditions_def arrayAt_def)
  have o: "\<not> completedLine ?b ''O''"
    by (simp add: completedLine_def winningConditions_def arrayAt_def)
  have m: "minimax ?b ''O'' 0 winningConditions = Inr (Some \<lparr>index = Some 5, score = - 98\<rparr>)"
    by code_simp
  have g: "getBestMove 0 ?b ''hard'' winningConditions = Inr (Some 5)"
    using m by (simp add: getBestMove_def findEmptySpots_def aiMarker_def)
  have u: "?b[nat 5 := ''O''] = [''X'', ''O'', ''X'', ''O'', ''X'', ''O'', '''', '''', '''']"
    by (simp add: eval_nat_numeral)
  have f: "forcesWin ''X'' [''X'', ''O'', ''X'', ''O'', ''X'', ''O'', '''', '''', ''''] ''X''"
    by (simp only: eval9 cong: if_weak_cong)
  from x o g f show ?thesis by (simp only: u) simp
qed

theorem C1_hard_not_forced_loss_witness:
  "length ['''', '''', '''', '''', '''', '''', '''', '''', ''''] = 9
   \<and> '''' \<in> set ['''', '''', '''', '''', '''', '''', '''', '''', '''']
   \<and> \<not> completedLine ['''', '''', '''', '''', '''', '''', '''', '''', ''''] ''X''
   \<and> \<not> completedLine ['''', '''', '''', '''', '''', '''', '''', '''', ''''] ''O''
   \<and> \<not> forcesWin ''X'' ['''', '''', '''', '''', '''', '''', '''', '''', ''''] ''O''
   \<and> (\<exists>m\<in>set (findEmptySpots ['''', '''', '''', '''', '''', '''', '''', '''', '''']).
         getBestMove 0 ['''', '''', '''', '''', '''', '''', '''', '''', ''''] ''hard'' winningConditions
           = Inr (Some m)
         \<and> \<not> forcesWin ''X'' (['''', '''', '''', '''', '''', '''', '''', '''', ''''][nat m := ''O'']) ''X'')"
proof -
  let ?b = "['''', '''', '''', '''', '''', '''', '''', '''', '''']"
  have l: "length ?b = 9" by simp
  have e: "'''' \<in> set ?b" by simp
  have x: "\<not> completedLine ?b ''X''"
    by (simp add: completedLine_def winningConditions_def arrayAt_def)
  have o: "\<not> completedLine ?b ''O''"
    by (simp add: completedLine_def winningConditions_def arrayAt_def)
  have f: "\<not> forcesWin ''X'' ?b ''O''"
    by (simp only: eval9 cong: if_weak_cong)
  from l e x o f C1_hard_not_forced_loss[OF l e x o f, of 0] show ?thesis by blast
qed

text \<open>
  C2. For every board, marker to move and depth, the terminal evaluation of \<open>minimax\<close> is:
  if the human marker \<open>X\<close> has a completed winning line the returned score is
  \<open>-100 + depth\<close>; otherwise if the AI marker \<open>O\<close> has a completed winning line it is
  \<open>100 - depth\<close>; otherwise if no cell is empty it is \<open>0\<close>.
\<close>

theorem C2_terminal_scores:
  "(completedLine b ''X'' \<longrightarrow>
      minimax b p d winningConditions = Inr (Some \<lparr>index = None, score = - 100 + d\<rparr>))
   \<and> (\<not> completedLine b ''X'' \<and> completedLine b ''O'' \<longrightarrow>
      minimax b p d winningConditions = Inr (Some \<lparr>index = None, score = 100 - d\<rparr>))
   \<and> (\<not> completedLine b ''X'' \<and> \<not> completedLine b ''O'' \<and> '''' \<notin> set b \<longrightarrow>
      minimax b p d winningConditions = Inr (Some \<lparr>index = None, score = 0\<rparr>))"
proof -
  have x: "checkBoardWin b humanMarker winningConditions = completedLine b ''X''"
    by (simp only: checkBoardWin_completedLine humanMarker_def)
  have o: "checkBoardWin b aiMarker winningConditions = completedLine b ''O''"
    by (simp only: checkBoardWin_completedLine aiMarker_def)
  show ?thesis
    using minimax_human_won[of b winningConditions p d]
      minimax_ai_won[of b winningConditions p d]
      minimax_draw[of b winningConditions p d]
    by (simp add: x o findEmptySpots_Nil)
qed

theorem C2_terminal_scores_witness:
  "completedLine [''X'', ''X'', ''X'', ''O'', ''O'', '''', '''', '''', ''''] ''X''
   \<and> minimax [''X'', ''X'', ''X'', ''O'', ''O'', '''', '''', '''', ''''] ''O'' 3 winningConditions
       = Inr (Some \<lparr>index = None, score = - 97\<rparr>)
   \<and> \<not> completedLine [''O'', ''O'', ''O'', ''X'', ''X'', '''', ''X'', '''', ''''] ''X''
   \<and> completedLine [''O'', ''O'', ''O'', ''X'', ''X'', '''', ''X'', '''', ''''] ''O''
   \<and> minimax [''O'', ''O'', ''O'', ''X'', ''X'', '''', ''X'', '''', ''''] ''X'' 5 winningConditions
       = Inr (Some \<lparr>index = None, score = 95\<rparr>)
   \<and> \<not> completedLine [''X'', ''O'', ''X'', ''X'', ''O'', ''O'', ''O'', ''X'', ''X''] ''X''
   \<and> \<not> completedLine [''X'', ''O'', ''X'', ''X'', ''O'', ''O'', ''O'', ''X'', ''X''] ''O''
   \<and> '''' \<notin> set [''X'', ''O'', ''X'', ''X'', ''O'', ''O'', ''O'', ''X'', ''X'']
   \<and> minimax [''X'', ''O'', ''X'', ''X'', ''O'', ''O'', ''O'', ''X'', ''X''] ''O'' 9 winningConditions
       = Inr (Some \<lparr>index = None, score = 0\<rparr>)"
proof -
  have 1: "completedLine [''X'', ''X'', ''X'', ''O'', ''O'', '''', '''', '''', ''''] ''X''"
    by (simp add: completedLine_def winningConditions_def arrayAt_def)
  have 2: "\<not> completedLine [''O'', ''O'', ''O'', ''X'', ''X'', '''', ''X'', '''', ''''] ''X''"
    by (simp add: completedLine_def winningConditions_def arrayAt_def)
  have 3: "completedLine [''O'', ''O'', ''O'', ''X'', ''X'', '''', ''X'', '''', ''''] ''O''"
    by (simp add: completedLine_def winningConditions_def arrayAt_def)
  have 4: "\<not> completedLine [''X'', ''O'', ''X'', ''X'', ''O'', ''O'', ''O'', ''X'', ''X''] ''X''"
    by (simp add: completedLine_def winningConditions_def arrayAt_def)
  have 5: "\<not> completedLine [''X'', ''O'', ''X'', ''X'', ''O'', ''O'', ''O'', ''X'', ''X''] ''O''"
    by (simp add: completedLine_def winningConditions_def arrayAt_def)
  have 6: "'''' \<notin> set [''X'', ''O'', ''X'', ''X'', ''O'', ''O'', ''O'', ''X'', ''X'']"
    by simp
  show ?thesis
    using 1 2 3 4 5 6
      C2_terminal_scores[of "[''X'', ''X'', ''X'', ''O'', ''O'', '''', '''', '''', '''']" "''O''" 3]
      C2_terminal_scores[of "[''O'', ''O'', ''O'', ''X'', ''X'', '''', ''X'', '''', '''']" "''X''" 5]
      C2_terminal_scores[of "[''X'', ''O'', ''X'', ''X'', ''O'', ''O'', ''O'', ''X'', ''X'']" "''O''" 9]
    by simp
qed

text \<open>
  C3. At every non-terminal node of \<open>minimax\<close> the candidates are the empty indices in
  ascending order; a node of the AI marker returns the candidate with the greatest child
  score and a node of the human marker the one with the least, the first such candidate
  (the lowest index) on ties: every candidate before it is strictly worse. On the all-empty
  board \<open>getBestMove(board, "hard")\<close> returns index 0.
\<close>

theorem C3_selection_order:
  assumes "\<not> completedLine b ''X''" and "\<not> completedLine b ''O''" and "'''' \<in> set b"
  shows "sorted_wrt (<) (findEmptySpots b)
       \<and> (\<forall>i. i \<in> set (findEmptySpots b) \<longleftrightarrow> arrayAt b i = Some '''')
       \<and> (\<forall>j. minimax (b[nat j := p]) (otherMarker p) (d + 1) winningConditions
              = Inr (Some \<lparr>index = minimaxIndex (b[nat j := p]) (otherMarker p) (d + 1) winningConditions,
                            score = minimaxScore (b[nat j := p]) (otherMarker p) (d + 1) winningConditions\<rparr>))
       \<and> (\<exists>i\<in>set (findEmptySpots b).
            minimax b p d winningConditions
              = Inr (Some \<lparr>index = Some i,
                            score = minimaxScore (b[nat i := p]) (otherMarker p) (d + 1) winningConditions\<rparr>)
            \<and> (p = ''O'' \<longrightarrow>
                 (\<forall>j\<in>set (findEmptySpots b).
                    minimaxScore (b[nat j := p]) (otherMarker p) (d + 1) winningConditions
                      \<le> minimaxScore (b[nat i := p]) (otherMarker p) (d + 1) winningConditions
                    \<and> (j < i \<longrightarrow>
                          minimaxScore (b[nat j := p]) (otherMarker p) (d + 1) winningConditions
                            < minimaxScore (b[nat i := p]) (otherMarker p) (d + 1) winningConditions)))
            \<and> (p \<noteq> ''O'' \<longrightarrow>
                 (\<forall>j\<in>set (findEmptySpots b).
                    minimaxScore (b[nat i := p]) (otherMarker p) (d + 1) winningConditions
                      \<le> minimaxScore (b[nat j := p]) (otherMarker p) (d + 1) winningConditions
                    \<and> (j < i \<longrightarrow>
                          minimaxScore (b[nat i := p]) (otherMarker p) (d + 1) winningConditions
                            < minimaxScore (b[nat j := p]) (otherMarker p) (d + 1) winningConditions))))
       \<and> getBestMove rnd ['''', '''', '''', '''', '''', '''', '''', '''', ''''] ''hard'' winningConditions
           = Inr (Some 0)"
proof -
  have nt: "\<not> checkBoardWin b humanMarker winningConditions"
      "\<not> checkBoardWin b aiMarker winningConditions" "findEmptySpots b \<noteq> []"
    using assms
    by (simp_all add: checkBoardWin_completedLine humanMarker_def aiMarker_def findEmptySpots_Nil)
  have e: "getBestMove rnd ['''', '''', '''', '''', '''', '''', '''', '''', ''''] ''hard'' winningConditions
           = Inr (Some 0)"
    by (simp add: getBestMove_hard empty_board_spots empty_board_hard)
  show ?thesis
    using minimax_node_best[OF nt, of p d] findEmptySpots_sorted[of b] e
    by (simp add: arrayAt_empty_iff minimax_eq aiMarker_def)
qed

theorem C3_selection_order_witness:
  "\<not> completedLine [''X'', ''O'', ''X'', ''X'', ''O'', ''O'', '''', ''X'', ''''] ''X''
   \<and> \<not> completedLine [''X'', ''O'', ''X'', ''X'', ''O'', ''O'', '''', ''X'', ''''] ''O''
   \<and> '''' \<in> set [''X'', ''O'', ''X'', ''X'', ''O'', ''O'', '''', ''X'', '''']
   \<and> findEmptySpots [''X'', ''O'', ''X'', ''X'', ''O'', ''O'', '''', ''X'', ''''] = [6, 8]
   \<and> minimaxScore [''X'', ''O'', ''X'', ''X'', ''O'', ''O'', ''O'', ''X'', ''''] ''X'' 1 winningConditions = 0
   \<and> minimaxScore [''X'', ''O'', ''X'', ''X'', ''O'', ''O'', '''', ''X'', ''O''] ''X'' 1 winningConditions = - 98
   \<and> minimax [''X'', ''O'', ''X'', ''X'', ''O'', ''O'', '''', ''X'', ''''] ''O'' 0 winningConditions
       = Inr (Some \<lparr>index = Some 6, score = 0\<rparr>)
   \<and> ''X'' \<noteq> ''O''
   \<and> minimaxScore [''X'', ''O'', ''X'', ''X'', ''O'', ''O'', ''X'', ''X'', ''''] ''O'' 2 winningConditions = - 98
   \<and> minimaxScore [''X'', ''O'', ''X'', ''X'', ''O'', ''O'', '''', ''X'', ''X''] ''O'' 2 winningConditions = 0
   \<and> minimax [''X'', ''O'', ''X'', ''X'', ''O'', ''O'', '''', ''X'', ''''] ''X'' 1 winningConditions
       = Inr (Some \<lparr>index = Some 6, score = - 98\<rparr>)"
proof -
  let ?b = "[''X'', ''O'', ''X'', ''X'', ''O'', ''O'', '''', ''X'', '''']"
  have x: "\<not> completedLine ?b ''X''"
    by (simp add: completedLine_def winningConditions_def arrayAt_def)
  have o: "\<not> completedLine ?b ''O''"
    by (simp add: completedLine_def winningConditions_def arrayAt_def)
  have e: "'''' \<in> set ?b" by simp
  have es: "findEmptySpots ?b = [6, 8]" by (simp add: findEmptySpots_def)
  have s6: "minimaxScore [''X'', ''O'', ''X'', ''X'', ''O'', ''O'', ''O'', ''X'', ''''] ''X'' 1 winningConditions = 0"
    by code_simp
  have s8: "minimaxScore [''X'', ''O'', ''X'', ''X'', ''O'', ''O'', '''', ''X'', ''O''] ''X'' 1 winningConditions = - 98"
    by code_simp
  have t6: "minimaxScore [''X'', ''O'', ''X'', ''X'', ''O'', ''O'', ''X'', ''X'', ''''] ''O'' 2 winningConditions = - 98"
    by code_simp
  have t8: "minimaxScore [''X'', ''O'', ''X'', ''X'', ''O'', ''O'', '''', ''X'', ''X''] ''O'' 2 winningConditions = 0"
    by code_simp
  have ai: "minimax ?b ''O'' 0 winningConditions = Inr (Some \<lparr>index = Some 6, score = 0\<rparr>)"
    using es s6 s8 C3_selection_order[OF x o e, of "''O''" 0]
    by (auto simp: otherMarker_eqs)
  have hu: "minimax ?b ''X'' 1 winningConditions = Inr (Some \<lparr>index = Some 6, score = - 98\<rparr>)"
    using es t6 t8 C3_selection_order[OF x o e, of "''X''" 1]
    by (auto simp: otherMarker_eqs)
  from x o e es s6 s8 t6 t8 ai hu show ?thesis by simp
qed

text \<open>
  C4, as amended. For every board where no cell is empty, \<open>getBestMove\<close> returns \<open>-1\<close>, for
  every difficulty, without calling the search: on the store it does so with no fuel and
  leaves the store as it is. (A completed winning line alone does not make it return \<open>-1\<close>.)
\<close>

theorem C4_no_empty_cell:
  assumes "'''' \<notin> set board"
  shows "getBestMove rnd board difficulty wc = Inr (Some (- 1))
       \<and> (a < length h \<and> h ! a = board \<longrightarrow>
            getBestMoveH 0 rnd h a difficulty wc = Some (Inr (Some (- 1)), h))"
  using assms by (simp add: getBestMove_def getBestMoveH_def findEmptySpots_Nil)

theorem C4_no_empty_cell_witness:
  "'''' \<notin> set [''X'', ''O'', ''X'', ''X'', ''O'', ''O'', ''O'', ''X'', ''X'']
   \<and> getBestMove (drawOf 1 1) [''X'', ''O'', ''X'', ''X'', ''O'', ''O'', ''O'', ''X'', ''X''] ''hard'' winningConditions
       = Inr (Some (- 1))
   \<and> getBestMoveH 0 (drawOf 1 1) [[''X'', ''O'', ''X'', ''X'', ''O'', ''O'', ''O'', ''X'', ''X'']] 0 ''hard''
         winningConditions
       = Some (Inr (Some (- 1)), [[''X'', ''O'', ''X'', ''X'', ''O'', ''O'', ''O'', ''X'', ''X'']])"
proof -
  have e: "'''' \<notin> set [''X'', ''O'', ''X'', ''X'', ''O'', ''O'', ''O'', ''X'', ''X'']" by simp
  from e C4_no_empty_cell[OF e, of "drawOf 1 1" "''hard''" winningConditions 0
      "[[''X'', ''O'', ''X'', ''X'', ''O'', ''O'', ''O'', ''X'', ''X'']]"]
  show ?thesis by simp
qed

theorem C4_counterexample:
  "completedLine [''X'', ''X'', ''X'', ''O'', ''O'', '''', '''', '''', ''''] ''X''
   \<and> getBestMove 0 [''X'', ''X'', ''X'', ''O'', ''O'', '''', '''', '''', ''''] ''hard'' winningConditions
       = Inr None
   \<and> getBestMove 0 [''X'', ''X'', ''X'', ''O'', ''O'', '''', '''', '''', ''''] ''easy'' winningConditions
       = Inr (Some 5)"
proof -
  let ?b = "[''X'', ''X'', ''X'', ''O'', ''O'', '''', '''', '''', '''']"
  have w: "completedLine ?b ''X''"
    by (simp add: completedLine_def winningConditions_def arrayAt_def)
  then have "checkBoardWin ?b humanMarker winningConditions"
    by (simp only: checkBoardWin_completedLine humanMarker_def)
  from minimax_human_won[OF this, of aiMarker 0]
  have h: "getBestMove 0 ?b ''hard'' winningConditions = Inr None"
    by (simp add: getBestMove_def findEmptySpots_def)
  have e: "getBestMove 0 ?b ''easy'' winningConditions = Inr (Some 5)"
    by (simp add: getBestMove_def findEmptySpots_def winningConditions_def arrayAt_def aiMarker_def)
  from w h e show ?thesis by simp
qed

text \<open>
  C5. For every index and marker, \<open>markCell\<close> returns true and sets exactly the addressed
  cell to the marker when that cell is empty, and returns false with the whole board
  unchanged when the cell is occupied or the index is outside 0 to 8; so calling it twice
  with the same index on an initially empty cell succeeds only the first time (for a
  marker, which is not the empty string).
\<close>

theorem C5_markCell:
  assumes "length board = 9"
  shows "(arrayAt board i = Some '''' \<longrightarrow>
            0 \<le> i \<and> i \<le> 8
            \<and> fst (markCell board i m) = True
            \<and> length (snd (markCell board i m)) = 9
            \<and> arrayAt (snd (markCell board i m)) i = Some m
            \<and> (\<forall>j. j \<noteq> i \<longrightarrow> arrayAt (snd (markCell board i m)) j = arrayAt board j))
       \<and> ((i < 0 \<or> 8 < i \<or> arrayAt board i \<noteq> Some '''') \<longrightarrow> markCell board i m = (False, board))
       \<and> (arrayAt board i = Some '''' \<and> m \<noteq> '''' \<longrightarrow>
            fst (markCell (snd (markCell board i m)) i m) = False
            \<and> snd (markCell (snd (markCell board i m)) i m) = snd (markCell board i m))"
proof (cases "arrayAt board i = Some ''''")
  case True
  from arrayAt_range[OF True] assms have r: "0 \<le> i" "i \<le> 8" by simp_all
  have mc: "markCell board i m = (True, board[nat i := m])"
    using True by (simp add: markCell_def)
  have same: "arrayAt (board[nat i := m]) i = Some m"
    by (rule arrayAt_update_same[OF True])
  have again: "m \<noteq> '''' \<Longrightarrow> markCell (board[nat i := m]) i m = (False, board[nat i := m])"
    using same by (simp add: markCell_def)
  have other: "\<forall>j. j \<noteq> i \<longrightarrow> arrayAt (board[nat i := m]) j = arrayAt board j"
    by (simp add: arrayAt_update_other[OF r(1)])
  show ?thesis
    using True r mc same again assms other
    by simp
next
  case False
  have "i < 0 \<or> 8 < i \<Longrightarrow> arrayAt board i \<noteq> Some ''''"
    using assms by (auto simp: arrayAt_def)
  with False show ?thesis by (simp add: markCell_def)
qed

theorem C5_markCell_witness:
  "length [''X'', '''', '''', '''', ''O'', '''', '''', '''', ''''] = 9
   \<and> arrayAt [''X'', '''', '''', '''', ''O'', '''', '''', '''', ''''] 2 = Some ''''
   \<and> markCell [''X'', '''', '''', '''', ''O'', '''', '''', '''', ''''] 2 ''X''
       = (True, [''X'', '''', ''X'', '''', ''O'', '''', '''', '''', ''''])
   \<and> fst (markCell (snd (markCell [''X'', '''', '''', '''', ''O'', '''', '''', '''', ''''] 2 ''X'')) 2 ''X'') = False
   \<and> arrayAt [''X'', '''', '''', '''', ''O'', '''', '''', '''', ''''] 4 \<noteq> Some ''''
   \<and> markCell [''X'', '''', '''', '''', ''O'', '''', '''', '''', ''''] 4 ''X''
       = (False, [''X'', '''', '''', '''', ''O'', '''', '''', '''', ''''])
   \<and> markCell [''X'', '''', '''', '''', ''O'', '''', '''', '''', ''''] 9 ''X''
       = (False, [''X'', '''', '''', '''', ''O'', '''', '''', '''', ''''])"
proof -
  have l: "length [''X'', '''', '''', '''', ''O'', '''', '''', '''', ''''] = 9" by simp
  have e: "arrayAt [''X'', '''', '''', '''', ''O'', '''', '''', '''', ''''] 2 = Some ''''"
    by (simp add: arrayAt_def)
  have o: "arrayAt [''X'', '''', '''', '''', ''O'', '''', '''', '''', ''''] 4 \<noteq> Some ''''"
    by (simp add: arrayAt_def)
  have m: "markCell [''X'', '''', '''', '''', ''O'', '''', '''', '''', ''''] 2 ''X''
       = (True, [''X'', '''', ''X'', '''', ''O'', '''', '''', '''', ''''])"
    by (simp add: markCell_def arrayAt_def)
  show ?thesis
    using l e o m
      C5_markCell[OF l, of 2 "''X''"] C5_markCell[OF l, of 4 "''X''"] C5_markCell[OF l, of 9 "''X''"]
    by simp
qed

text \<open>
  C6. For every board with at least one empty cell, \<open>getBestMove(board, "medium")\<close> follows
  the priority chain: the AI's immediate winning completion (the two-in-a-row gap of the AI
  marker, first matching line in the order of the lines) when one exists; else the
  opponent's immediate winning completion; else index 4 when the centre is empty; else a
  random empty index: the element of the empty indices at the floor of the binary64 product
  \<open>Math.random() * availableMoves.length\<close>, an empty index for every draw.
  \<open>findStrategicMove\<close> is the specification's \<open>findTwoInARowGap\<close> with \<open>-1\<close> for none. On the
  board \<open>["X","X","","","O","","","",""]\<close> medium returns index 2.
\<close>

theorem C6_medium_chain:
  assumes "'''' \<in> set board"
  shows "getBestMove rnd board ''medium'' wc =
           (case findTwoInARowGap board ''O'' wc of
              Some i \<Rightarrow> Inr (Some i)
            | None \<Rightarrow>
               (case findTwoInARowGap board ''X'' wc of
                  Some i \<Rightarrow> Inr (Some i)
                | None \<Rightarrow>
                    if arrayAt board 4 = Some '''' then Inr (Some 4)
                    else Inr (arrayAt (findEmptySpots board)
                                \<lfloor>roundBinary64
                                   (drawValue rnd * real (length (findEmptySpots board)))\<rfloor>)))
         \<and> findStrategicMove board ''O'' wc
             = (case findTwoInARowGap board ''O'' wc of None \<Rightarrow> - 1 | Some i \<Rightarrow> i)
         \<and> findStrategicMove board ''X'' wc
             = (case findTwoInARowGap board ''X'' wc of None \<Rightarrow> - 1 | Some i \<Rightarrow> i)
         \<and> (length board < 2 ^ 32 \<longrightarrow>
              (\<exists>i \<in> set (findEmptySpots board).
                 arrayAt (findEmptySpots board)
                   \<lfloor>roundBinary64 (drawValue rnd * real (length (findEmptySpots board)))\<rfloor>
                 = Some i))
         \<and> getBestMove rnd [''X'', ''X'', '''', '''', ''O'', '''', '''', '''', ''''] ''medium''
               winningConditions = Inr (Some 2)"
proof -
  from assms have ne: "findEmptySpots board \<noteq> []" by (simp add: findEmptySpots_Nil)
  have pick: "\<exists>i \<in> set (findEmptySpots board).
      arrayAt (findEmptySpots board)
        \<lfloor>roundBinary64 (drawValue rnd * real (length (findEmptySpots board)))\<rfloor> = Some i"
    if "length board < 2 ^ 32"
  proof -
    from empties_below[OF that] have "length (findEmptySpots board) < 2 ^ 53" by simp
    from random_pick[OF ne this, of rnd] show ?thesis by auto
  qed
  have ex: "getBestMove rnd [''X'', ''X'', '''', '''', ''O'', '''', '''', '''', ''''] ''medium''
               winningConditions = Inr (Some 2)"
    by (simp add: getBestMove_def findEmptySpots_def winningConditions_def arrayAt_def aiMarker_def)
  show ?thesis
    using getBestMove_medium[OF ne, of rnd wc] pick ex
    by (simp add: findStrategicMove_spec)
qed

theorem C6_medium_chain_witness:
  "'''' \<in> set [''X'', ''O'', ''X'', '''', '''', '''', ''O'', '''', '''']
   \<and> findTwoInARowGap [''X'', ''O'', ''X'', '''', '''', '''', ''O'', '''', ''''] ''O'' winningConditions = None
   \<and> findTwoInARowGap [''X'', ''O'', ''X'', '''', '''', '''', ''O'', '''', ''''] ''X'' winningConditions = None
   \<and> getBestMove (drawOf 1 1) [''X'', ''O'', ''X'', '''', '''', '''', ''O'', '''', ''''] ''medium''
         winningConditions = Inr (Some 4)
   \<and> findTwoInARowGap [''X'', ''X'', '''', '''', ''O'', '''', '''', '''', ''''] ''X'' winningConditions = Some 2
   \<and> findStrategicMove [''X'', ''X'', '''', '''', ''O'', '''', '''', '''', ''''] ''X'' winningConditions = 2
   \<and> length [''X'', '''', '''', '''', ''O'', '''', '''', '''', ''''] < 2 ^ 32
   \<and> drawValue (drawOf 2573485501354569 52) = 2573485501354569 / 2 ^ 52
   \<and> getBestMove (drawOf 2573485501354569 52) [''X'', '''', '''', '''', ''O'', '''', '''', '''', '''']
         ''medium'' winningConditions = Inr (Some 6)
   \<and> getBestMove (drawOf 1 1) [''X'', '''', '''', '''', ''O'', '''', '''', '''', '''']
         ''medium'' winningConditions = Inr (Some 5)"
proof -
  let ?b = "[''X'', ''O'', ''X'', '''', '''', '''', ''O'', '''', '''']"
  let ?c = "[''X'', ''X'', '''', '''', ''O'', '''', '''', '''', '''']"
  let ?d = "[''X'', '''', '''', '''', ''O'', '''', '''', '''', '''']"
  have e: "'''' \<in> set ?b" "'''' \<in> set ?c" "'''' \<in> set ?d" by simp_all
  have o: "findTwoInARowGap ?b ''O'' winningConditions = None"
    by (simp add: winningConditions_def lineGap_def arrayAt_def)
  have x: "findTwoInARowGap ?b ''X'' winningConditions = None"
    by (simp add: winningConditions_def lineGap_def arrayAt_def)
  have cx: "findTwoInARowGap ?c ''X'' winningConditions = Some 2"
    by (simp add: winningConditions_def lineGap_def arrayAt_def)
  have c4: "arrayAt ?b 4 = Some ''''" by (simp add: arrayAt_def)
  have do: "findTwoInARowGap ?d ''O'' winningConditions = None"
    by (simp add: winningConditions_def lineGap_def arrayAt_def)
  have dx: "findTwoInARowGap ?d ''X'' winningConditions = None"
    by (simp add: winningConditions_def lineGap_def arrayAt_def)
  have d4: "arrayAt ?d 4 \<noteq> Some ''''" by (simp add: arrayAt_def)
  have ds: "findEmptySpots ?d = [1, 2, 3, 5, 6, 7, 8]" by (simp add: findEmptySpots_def)
  have l: "length ?d < 2 ^ 32" by simp
  have v: "drawValue (drawOf 2573485501354569 52) = 2573485501354569 / 2 ^ 52"
    by (simp add: drawValue_drawOf)
  have t: "\<lfloor>roundBinary64 (drawValue (drawOf 2573485501354569 52)
              * real (length [1, 2, 3, 5, 6, 7, 8 :: int]))\<rfloor> = 4"
    using tie_example by simp
  have "roundBinary64 (real (1::nat) / 2 ^ 1 * real (7::nat)) = real (1 * 7) / 2 ^ 1"
    by (rule pick_dyadic) simp_all
  hence r: "roundBinary64 (7 / 2) = 7 / 2" by simp
  have "\<lfloor>roundBinary64 (7 / 2)\<rfloor> = (3::int)" by (simp only: r) simp
  hence h: "\<lfloor>roundBinary64 (drawValue (drawOf 1 1)
              * real (length [1, 2, 3, 5, 6, 7, 8 :: int]))\<rfloor> = 3"
    by (simp add: drawValue_drawOf)
  have a4: "arrayAt [1, 2, 3, 5, 6, 7, 8] 4 = Some 6" by (simp add: arrayAt_def)
  have a3: "arrayAt [1, 2, 3, 5, 6, 7, 8] 3 = Some 5" by (simp add: arrayAt_def)
  have g6: "getBestMove (drawOf 2573485501354569 52) ?d ''medium'' winningConditions = Inr (Some 6)"
    using C6_medium_chain[OF e(3), of "drawOf 2573485501354569 52" winningConditions, THEN conjunct1]
    by (simp only: do dx d4 ds t a4 option.case if_False)
  have g5: "getBestMove (drawOf 1 1) ?d ''medium'' winningConditions = Inr (Some 5)"
    using C6_medium_chain[OF e(3), of "drawOf 1 1" winningConditions, THEN conjunct1]
    by (simp only: do dx d4 ds h a3 option.case if_False)
  have g4: "getBestMove (drawOf 1 1) ?b ''medium'' winningConditions = Inr (Some 4)"
    using C6_medium_chain[OF e(1), of "drawOf 1 1" winningConditions] o x c4 by simp
  have f2: "findStrategicMove ?c ''X'' winningConditions = 2"
    using C6_medium_chain[OF e(2), of 0 winningConditions] cx by simp
  from e o x cx l v g6 g5 g4 f2 show ?thesis by simp
qed

text \<open>
  C7. For every board, the draw test returns true if and only if no cell of the board is
  empty and neither marker has a completed winning line. In \<open>checkResult\<close> the draw is
  reported exactly then (a marker being any non-empty cell value, and \<open>X\<close> or \<open>O\<close> on a
  board that holds nothing else); \<open>minimax\<close> returns the draw score there.
\<close>

theorem C7_draw_test:
  "(snd (snd (checkResult b act)) = Some Drawn \<longleftrightarrow>
      '''' \<notin> set b \<and> (\<forall>m. m \<noteq> '''' \<longrightarrow> \<not> completedLine b m))
   \<and> (set b \<subseteq> {'''', ''X'', ''O''} \<longrightarrow>
        (snd (snd (checkResult b act)) = Some Drawn \<longleftrightarrow>
           '''' \<notin> set b \<and> \<not> completedLine b ''X'' \<and> \<not> completedLine b ''O''))
   \<and> ('''' \<notin> set b \<and> \<not> completedLine b ''X'' \<and> \<not> completedLine b ''O'' \<longrightarrow>
        minimax b p d winningConditions = Inr (Some \<lparr>index = None, score = scores ''draw''\<rparr>))"
proof -
  have gen: "snd (snd (checkResult b act)) = Some Drawn \<longleftrightarrow>
      '''' \<notin> set b \<and> (\<forall>m. m \<noteq> '''' \<longrightarrow> \<not> completedLine b m)"
    using checkWin_None[of b winningConditions]
    by (auto simp: checkResult_def checkBoardWin_completedLine split: option.splits)
  have cells: "completedLine b m \<Longrightarrow> m \<in> set b" for m
    by (auto simp: completedLine_def arrayAt_def split: if_splits)
  have restr: "(\<forall>m. m \<noteq> '''' \<longrightarrow> \<not> completedLine b m) \<longleftrightarrow>
       \<not> completedLine b ''X'' \<and> \<not> completedLine b ''O''" if "set b \<subseteq> {'''', ''X'', ''O''}"
    using that cells by auto
  have mm: "minimax b p d winningConditions = Inr (Some \<lparr>index = None, score = scores ''draw''\<rparr>)"
    if "'''' \<notin> set b" "\<not> completedLine b ''X''" "\<not> completedLine b ''O''"
    using that minimax_draw[of b winningConditions p d]
    by (simp add: checkBoardWin_completedLine humanMarker_def aiMarker_def findEmptySpots_Nil scores_def)
  show ?thesis using gen restr mm by blast
qed

theorem C7_draw_test_witness:
  "set [''X'', ''O'', ''X'', ''X'', ''O'', ''O'', ''O'', ''X'', ''X''] \<subseteq> {'''', ''X'', ''O''}
   \<and> '''' \<notin> set [''X'', ''O'', ''X'', ''X'', ''O'', ''O'', ''O'', ''X'', ''X'']
   \<and> \<not> completedLine [''X'', ''O'', ''X'', ''X'', ''O'', ''O'', ''O'', ''X'', ''X''] ''X''
   \<and> \<not> completedLine [''X'', ''O'', ''X'', ''X'', ''O'', ''O'', ''O'', ''X'', ''X''] ''O''
   \<and> snd (snd (checkResult [''X'', ''O'', ''X'', ''X'', ''O'', ''O'', ''O'', ''X'', ''X''] True)) = Some Drawn
   \<and> minimax [''X'', ''O'', ''X'', ''X'', ''O'', ''O'', ''O'', ''X'', ''X''] ''O'' 9 winningConditions
       = Inr (Some \<lparr>index = None, score = 0\<rparr>)"
proof -
  have 1: "set [''X'', ''O'', ''X'', ''X'', ''O'', ''O'', ''O'', ''X'', ''X''] \<subseteq> {'''', ''X'', ''O''}"
    by simp
  have 2: "'''' \<notin> set [''X'', ''O'', ''X'', ''X'', ''O'', ''O'', ''O'', ''X'', ''X'']"
    by simp
  have 3: "\<not> completedLine [''X'', ''O'', ''X'', ''X'', ''O'', ''O'', ''O'', ''X'', ''X''] ''X''"
    by (simp add: completedLine_def winningConditions_def arrayAt_def)
  have 4: "\<not> completedLine [''X'', ''O'', ''X'', ''X'', ''O'', ''O'', ''O'', ''X'', ''X''] ''O''"
    by (simp add: completedLine_def winningConditions_def arrayAt_def)
  show ?thesis
    using 1 2 3 4
      C7_draw_test[of "[''X'', ''O'', ''X'', ''X'', ''O'', ''O'', ''O'', ''X'', ''X'']" True "''O''" 9]
    by (simp add: scores_def)
qed

text \<open>
  C8. For every board with at least one empty cell, \<open>getBestMove(board, "easy")\<close> returns
  the AI's immediate winning completion when one exists, and otherwise the empty index at
  the floor of the binary64 product \<open>Math.random() * availableMoves.length\<close>, an empty index
  for every draw: no block rule and no centre preference apply. Of \<open>n\<close> empty cells the
  \<open>k\<close>-th is returned for every draw from \<open>k/n\<close> to \<open>(k+1)/n - 2^-53\<close>, and only for draws
  from \<open>k/n (1 - 2^-53)\<close> to below \<open>(k+1)/n\<close> (a product just below \<open>k\<close> may round to \<open>k\<close>):
  the cells are chosen uniformly up to the rounding of the product, and every empty cell
  is returned for some draw.
\<close>

theorem C8_easy_chain:
  assumes "'''' \<in> set board"
  shows "getBestMove rnd board ''easy'' wc =
           (case findTwoInARowGap board ''O'' wc of
              Some i \<Rightarrow> Inr (Some i)
            | None \<Rightarrow> Inr (arrayAt (findEmptySpots board)
                              \<lfloor>roundBinary64
                                 (drawValue rnd * real (length (findEmptySpots board)))\<rfloor>))
         \<and> findStrategicMove board ''O'' wc
             = (case findTwoInARowGap board ''O'' wc of None \<Rightarrow> - 1 | Some i \<Rightarrow> i)
         \<and> (findTwoInARowGap board ''O'' wc = None \<and> length board < 2 ^ 32 \<longrightarrow>
              (\<exists>i \<in> set (findEmptySpots board). getBestMove rnd board ''easy'' wc = Inr (Some i)))
         \<and> (findTwoInARowGap board ''O'' wc = None \<and> length board < 2 ^ 32 \<longrightarrow>
              (\<forall>k < length (findEmptySpots board).
                 real k / real (length (findEmptySpots board)) \<le> drawValue rnd
                 \<and> drawValue rnd \<le> real (Suc k) / real (length (findEmptySpots board)) - 1 / 2 ^ 53
                 \<longrightarrow> getBestMove rnd board ''easy'' wc = Inr (Some (findEmptySpots board ! k))))
         \<and> (findTwoInARowGap board ''O'' wc = None \<and> length board < 2 ^ 32 \<longrightarrow>
              (\<forall>k < length (findEmptySpots board).
                 getBestMove rnd board ''easy'' wc = Inr (Some (findEmptySpots board ! k))
                 \<longrightarrow> real k / real (length (findEmptySpots board)) * (1 - 1 / 2 ^ 53) \<le> drawValue rnd
                   \<and> drawValue rnd < real (Suc k) / real (length (findEmptySpots board))))
         \<and> (findTwoInARowGap board ''O'' wc = None \<and> length board < 2 ^ 32 \<longrightarrow>
              (\<forall>i \<in> set (findEmptySpots board).
                 \<exists>r. getBestMove r board ''easy'' wc = Inr (Some i)))"
proof -
  from assms have ne: "findEmptySpots board \<noteq> []" by (simp add: findEmptySpots_Nil)
  let ?es = "findEmptySpots board"
  let ?n = "length ?es"
  note easy = getBestMove_easy[OF ne]
  have chain: "getBestMove rnd board ''easy'' wc =
           (case findTwoInARowGap board ''O'' wc of
              Some i \<Rightarrow> Inr (Some i)
            | None \<Rightarrow> Inr (arrayAt ?es \<lfloor>roundBinary64 (drawValue rnd * real ?n)\<rfloor>))"
    by (rule easy)
  have fsm: "findStrategicMove board ''O'' wc
             = (case findTwoInARowGap board ''O'' wc of None \<Rightarrow> - 1 | Some i \<Rightarrow> i)"
    by (simp add: findStrategicMove_spec)
  have fb: "getBestMove r board ''easy'' wc
              = Inr (arrayAt ?es \<lfloor>roundBinary64 (drawValue r * real ?n)\<rfloor>)"
    if "findTwoInARowGap board ''O'' wc = None" for r
    using that by (simp add: easy)
  have n53: "?n < 2 ^ 53" if "length board < 2 ^ 32"
    using empties_below[OF that] by simp
  have n32: "?n < 2 ^ 32" if "length board < 2 ^ 32"
    using empties_below[OF that] .
  have some: "\<exists>i \<in> set ?es. getBestMove rnd board ''easy'' wc = Inr (Some i)"
    if none: "findTwoInARowGap board ''O'' wc = None" and l: "length board < 2 ^ 32"
  proof -
    from random_pick[OF ne n53[OF l], of rnd] obtain k where
      "k < ?n" "arrayAt ?es \<lfloor>roundBinary64 (drawValue rnd * real ?n)\<rfloor> = Some (?es ! k)"
      by blast
    then show ?thesis by (auto simp: fb[OF none])
  qed
  have iv: "getBestMove rnd board ''easy'' wc = Inr (Some (?es ! k))"
    if none: "findTwoInARowGap board ''O'' wc = None" and l: "length board < 2 ^ 32"
      and k: "k < ?n" "real k / real ?n \<le> drawValue rnd"
        "drawValue rnd \<le> real (Suc k) / real ?n - 1 / 2 ^ 53" for k
    using random_interval[OF k(1) n53[OF l] k(2,3)] by (simp only: fb[OF none])
  have only: "real k / real ?n * (1 - 1 / 2 ^ 53) \<le> drawValue rnd
              \<and> drawValue rnd < real (Suc k) / real ?n"
    if none: "findTwoInARowGap board ''O'' wc = None" and l: "length board < 2 ^ 32"
      and k: "k < ?n" "getBestMove rnd board ''easy'' wc = Inr (Some (?es ! k))" for k
  proof -
    from k(2) have "arrayAt ?es \<lfloor>roundBinary64 (drawValue rnd * real ?n)\<rfloor> = Some (?es ! k)"
      by (simp add: fb[OF none])
    from random_only[OF k(1) n53[OF l] findEmptySpots_distinct this] show ?thesis .
  qed
  have ex: "\<exists>r. getBestMove r board ''easy'' wc = Inr (Some i)"
    if none: "findTwoInARowGap board ''O'' wc = None" and l: "length board < 2 ^ 32"
      and i: "i \<in> set ?es" for i
  proof -
    from i obtain k where k: "k < ?n" "?es ! k = i" by (auto simp: in_set_conv_nth)
    from random_some_draw[OF k(1) n32[OF l]] obtain r where
      "arrayAt ?es \<lfloor>roundBinary64 (drawValue r * real ?n)\<rfloor> = Some (?es ! k)" ..
    then have "getBestMove r board ''easy'' wc = Inr (Some i)"
      by (simp add: fb[OF none] k(2))
    then show ?thesis ..
  qed
  from some have 3: "findTwoInARowGap board ''O'' wc = None \<and> length board < 2 ^ 32 \<longrightarrow>
              (\<exists>i \<in> set ?es. getBestMove rnd board ''easy'' wc = Inr (Some i))" by blast
  from iv have 4: "findTwoInARowGap board ''O'' wc = None \<and> length board < 2 ^ 32 \<longrightarrow>
              (\<forall>k < ?n. real k / real ?n \<le> drawValue rnd
                 \<and> drawValue rnd \<le> real (Suc k) / real ?n - 1 / 2 ^ 53
                 \<longrightarrow> getBestMove rnd board ''easy'' wc = Inr (Some (?es ! k)))" by blast
  from only have 5: "findTwoInARowGap board ''O'' wc = None \<and> length board < 2 ^ 32 \<longrightarrow>
              (\<forall>k < ?n. getBestMove rnd board ''easy'' wc = Inr (Some (?es ! k))
                 \<longrightarrow> real k / real ?n * (1 - 1 / 2 ^ 53) \<le> drawValue rnd
                   \<and> drawValue rnd < real (Suc k) / real ?n)" by blast
  from ex have 6: "findTwoInARowGap board ''O'' wc = None \<and> length board < 2 ^ 32 \<longrightarrow>
              (\<forall>i \<in> set ?es. \<exists>r. getBestMove r board ''easy'' wc = Inr (Some i))" by blast
  from chain fsm 3 4 5 6 show ?thesis by (intro conjI)
qed

theorem C8_easy_chain_witness:
  "'''' \<in> set [''X'', '''', '''', '''', ''O'', '''', '''', '''', '''']
   \<and> findTwoInARowGap [''X'', '''', '''', '''', ''O'', '''', '''', '''', ''''] ''O'' winningConditions = None
   \<and> length [''X'', '''', '''', '''', ''O'', '''', '''', '''', ''''] < 2 ^ 32
   \<and> findEmptySpots [''X'', '''', '''', '''', ''O'', '''', '''', '''', ''''] = [1, 2, 3, 5, 6, 7, 8]
   \<and> drawValue (drawOf 2 2) = 1 / 2
   \<and> (3::nat) < 7 \<and> real 3 / real 7 \<le> 1 / 2 \<and> (1::real) / 2 \<le> real (Suc 3) / real 7 - 1 / 2 ^ 53
   \<and> getBestMove (drawOf 2 2) [''X'', '''', '''', '''', ''O'', '''', '''', '''', ''''] ''easy''
         winningConditions = Inr (Some 5)
   \<and> drawValue (drawOf 2573485501354569 52) = 2573485501354569 / 2 ^ 52
   \<and> (2573485501354569::real) / 2 ^ 52 < real (Suc 3) / real 7
   \<and> real 4 / real 7 * (1 - 1 / 2 ^ 53) \<le> 2573485501354569 / 2 ^ 52
   \<and> getBestMove (drawOf 2573485501354569 52) [''X'', '''', '''', '''', ''O'', '''', '''', '''', '''']
         ''easy'' winningConditions = Inr (Some 6)
   \<and> (\<exists>r. getBestMove r [''X'', '''', '''', '''', ''O'', '''', '''', '''', ''''] ''easy''
            winningConditions = Inr (Some 8))"
proof -
  let ?d = "[''X'', '''', '''', '''', ''O'', '''', '''', '''', '''']"
  have e: "'''' \<in> set ?d" by simp
  have o: "findTwoInARowGap ?d ''O'' winningConditions = None"
    by (simp add: winningConditions_def lineGap_def arrayAt_def)
  have l: "length ?d < 2 ^ 32" by simp
  have es: "findEmptySpots ?d = [1, 2, 3, 5, 6, 7, 8]" by (simp add: findEmptySpots_def)
  have v1: "drawValue (drawOf 2 2) = 1 / 2" by (simp add: drawValue_drawOf)
  have k: "(3::nat) < 7" "real 3 / real 7 \<le> 1 / 2"
    "(1::real) / 2 \<le> real (Suc 3) / real 7 - 1 / 2 ^ 53" by simp_all
  have v: "drawValue (drawOf 2573485501354569 52) = 2573485501354569 / 2 ^ 52"
    by (simp add: drawValue_drawOf)
  have b: "(2573485501354569::real) / 2 ^ 52 < real (Suc 3) / real 7"
    "real 4 / real 7 * (1 - 1 / 2 ^ 53) \<le> 2573485501354569 / 2 ^ 52" by simp_all
  have t: "\<lfloor>roundBinary64 (drawValue (drawOf 2573485501354569 52)
              * real (length [1, 2, 3, 5, 6, 7, 8 :: int]))\<rfloor> = 4"
    using tie_example by simp
  have a4: "arrayAt [1, 2, 3, 5, 6, 7, 8] 4 = Some 6" by (simp add: arrayAt_def)
  note c8 = C8_easy_chain[OF e, of _ winningConditions]
  have g6: "getBestMove (drawOf 2573485501354569 52) ?d ''easy'' winningConditions = Inr (Some 6)"
    using c8[of "drawOf 2573485501354569 52", THEN conjunct1]
    by (simp only: o es t a4 option.case)
  from c8[of "drawOf 2 2"] o l
  have "\<forall>k < length (findEmptySpots ?d).
          real k / real (length (findEmptySpots ?d)) \<le> drawValue (drawOf 2 2)
          \<and> drawValue (drawOf 2 2) \<le> real (Suc k) / real (length (findEmptySpots ?d)) - 1 / 2 ^ 53
          \<longrightarrow> getBestMove (drawOf 2 2) ?d ''easy'' winningConditions
                = Inr (Some (findEmptySpots ?d ! k))"
    by blast
  then have "3 < length (findEmptySpots ?d) \<longrightarrow>
          real 3 / real (length (findEmptySpots ?d)) \<le> drawValue (drawOf 2 2)
          \<and> drawValue (drawOf 2 2) \<le> real (Suc 3) / real (length (findEmptySpots ?d)) - 1 / 2 ^ 53
          \<longrightarrow> getBestMove (drawOf 2 2) ?d ''easy'' winningConditions
                = Inr (Some (findEmptySpots ?d ! 3))"
    by (rule spec)
  with k have g5: "getBestMove (drawOf 2 2) ?d ''easy'' winningConditions = Inr (Some 5)"
    by (simp add: es v1)
  from c8[of "drawOf 2 2"] o l
  have "\<forall>i \<in> set (findEmptySpots ?d). \<exists>r. getBestMove r ?d ''easy'' winningConditions = Inr (Some i)"
    by blast
  then have g8: "\<exists>r. getBestMove r ?d ''easy'' winningConditions = Inr (Some 8)"
    by (simp add: es)
  from e o l es v1 k g5 v b g6 g8 show ?thesis by (intro conjI)
qed

text \<open>
  C9. The search never mutates the caller's board: for every board of nine cells, difficulty
  and random draw, \<open>getBestMove\<close> on the store returns (with fuel for the ten nested calls
  at most) what \<open>getBestMove\<close> computes from the board's contents, and every array that
  existed before the call, the caller's board among them, holds the same values after it;
  the same holds for every call of \<open>minimax\<close>. Each step of the loop writes into the array
  that it has just allocated.
\<close>

theorem C9_caller_board_unchanged:
  assumes "board < length h" and "length (h ! board) = 9" and "10 \<le> n"
  shows "(\<exists>h'. getBestMoveH n rnd h board difficulty wc
              = Some (getBestMove rnd (h ! board) difficulty wc, h')
            \<and> take (length h) h' = h \<and> h' ! board = h ! board)
       \<and> (p \<noteq> '''' \<longrightarrow>
            (\<exists>h'. minimaxH n h board p d wc = Some (minimax (h ! board) p d wc, h')
              \<and> take (length h) h' = h \<and> h' ! board = h ! board))
       \<and> (\<forall>r h'. getBestMoveH n rnd h board difficulty wc = Some (r, h')
              \<longrightarrow> take (length h) h' = h)
       \<and> (\<forall>k r h'. minimaxH k h board p d wc = Some (r, h') \<longrightarrow> take (length h) h' = h)"
proof -
  have "length (findEmptySpots (h ! board)) \<le> 9"
    using assms(2) length_filter_le[of "\<lambda>c. c = ''''" "h ! board"]
    by (simp add: length_findEmptySpots)
  with assms(3) have fuel: "length (findEmptySpots (h ! board)) < n" by simp
  have pre: "take (length h) h' = h \<and> h' ! board = h ! board" if "\<exists>ext. h' = h @ ext" for h'
    using that assms(1) by (auto simp: nth_append)
  have g: "\<exists>h'. getBestMoveH n rnd h board difficulty wc
              = Some (getBestMove rnd (h ! board) difficulty wc, h')
            \<and> take (length h) h' = h \<and> h' ! board = h ! board"
    using getBestMoveH_agree[OF assms(1) fuel, of rnd difficulty wc] pre by blast
  have m: "\<exists>h'. minimaxH n h board p d wc = Some (minimax (h ! board) p d wc, h')
              \<and> take (length h) h' = h \<and> h' ! board = h ! board" if "p \<noteq> ''''"
  proof -
    from that fuel have "length (findEmptySpots (h ! board)) + (if p = '''' then 1 else 0) < n"
      by simp
    from minimaxH_agree[OF assms(1) this, of d wc] pre show ?thesis by blast
  qed
  have fm: "take (length h) h' = h" if "minimaxH k h board p d wc = Some (r, h')" for k r h'
    using minimaxH_frame[OF that] by auto
  have fg: "take (length h) h' = h" if "getBestMoveH n rnd h board difficulty wc = Some (r, h')" for r h'
    using that getBestMoveH_agree[OF assms(1) fuel, of rnd difficulty wc] by auto
  from g m fm fg show ?thesis by blast
qed

theorem C9_caller_board_unchanged_witness:
  "(0::nat) < length [[''X'', ''O'', ''X'', ''X'', ''O'', ''O'', '''', ''X'', '''']]
   \<and> length ([[''X'', ''O'', ''X'', ''X'', ''O'', ''O'', '''', ''X'', '''']] ! 0) = 9
   \<and> (10::nat) \<le> 10
   \<and> ''O'' \<noteq> ''''
   \<and> minimaxH 10 [[''X'', ''O'', ''X'', ''X'', ''O'', ''O'', '''', ''X'', '''']] 0 ''O'' 0 winningConditions
       = Some (Inr (Some \<lparr>index = Some 6, score = 0\<rparr>),
               [[''X'', ''O'', ''X'', ''X'', ''O'', ''O'', '''', ''X'', ''''],
                [''X'', ''O'', ''X'', ''X'', ''O'', ''O'', ''O'', ''X'', ''''],
                [''X'', ''O'', ''X'', ''X'', ''O'', ''O'', ''O'', ''X'', ''X''],
                [''X'', ''O'', ''X'', ''X'', ''O'', ''O'', '''', ''X'', ''O''],
                [''X'', ''O'', ''X'', ''X'', ''O'', ''O'', ''X'', ''X'', ''O'']])
   \<and> minimax ([[''X'', ''O'', ''X'', ''X'', ''O'', ''O'', '''', ''X'', '''']] ! 0) ''O'' 0 winningConditions
       = Inr (Some \<lparr>index = Some 6, score = 0\<rparr>)
   \<and> (\<exists>h'. getBestMoveH 10 0 [[''X'', ''O'', ''X'', ''X'', ''O'', ''O'', '''', ''X'', '''']] 0 ''hard'' winningConditions
              = Some (getBestMove 0 ([[''X'', ''O'', ''X'', ''X'', ''O'', ''O'', '''', ''X'', '''']] ! 0) ''hard'' winningConditions, h')
            \<and> take (length [[''X'', ''O'', ''X'', ''X'', ''O'', ''O'', '''', ''X'', '''']]) h'
                = [[''X'', ''O'', ''X'', ''X'', ''O'', ''O'', '''', ''X'', '''']])"
proof -
  let ?h = "[[''X'', ''O'', ''X'', ''X'', ''O'', ''O'', '''', ''X'', '''']]"
  have a: "(0::nat) < length ?h" by simp
  have l: "length (?h ! 0) = 9" by simp
  have n: "(10::nat) \<le> 10" by simp
  have p: "''O'' \<noteq> ''''" by simp
  have e: "minimaxH 10 ?h 0 ''O'' 0 winningConditions
       = Some (Inr (Some \<lparr>index = Some 6, score = 0\<rparr>),
               [[''X'', ''O'', ''X'', ''X'', ''O'', ''O'', '''', ''X'', ''''],
                [''X'', ''O'', ''X'', ''X'', ''O'', ''O'', ''O'', ''X'', ''''],
                [''X'', ''O'', ''X'', ''X'', ''O'', ''O'', ''O'', ''X'', ''X''],
                [''X'', ''O'', ''X'', ''X'', ''O'', ''O'', '''', ''X'', ''O''],
                [''X'', ''O'', ''X'', ''X'', ''O'', ''O'', ''X'', ''X'', ''O'']])"
    by code_simp
  note c9 = C9_caller_board_unchanged[OF a l n, of 0 "''hard''" winningConditions "''O''" 0]
  from c9 p e have m: "minimax (?h ! 0) ''O'' 0 winningConditions
       = Inr (Some \<lparr>index = Some 6, score = 0\<rparr>)"
    by auto
  from c9 have "\<exists>h'. getBestMoveH 10 0 ?h 0 ''hard'' winningConditions
              = Some (getBestMove 0 (?h ! 0) ''hard'' winningConditions, h')
            \<and> take (length ?h) h' = ?h"
    by blast
  with a l n p e m show ?thesis by blast
qed

text \<open>
  C10. For every board of nine cells with no completed winning line for either marker and
  at least one empty cell, for every difficulty and every random draw, \<open>getBestMove\<close> returns
  an index \<open>i\<close> with \<open>0 \<le> i \<le> 8\<close> whose cell is empty.
\<close>

theorem C10_move_is_empty_cell:
  assumes "length board = 9"
    and "\<not> completedLine board ''X''" and "\<not> completedLine board ''O''"
    and "'''' \<in> set board"
  shows "\<exists>i. getBestMove rnd board difficulty winningConditions = Inr (Some i)
            \<and> 0 \<le> i \<and> i \<le> 8 \<and> board ! nat i = ''''"
proof -
  from assms(4) have ne: "findEmptySpots board \<noteq> []" by (simp add: findEmptySpots_Nil)
  have ok: "0 \<le> i \<and> i \<le> 8 \<and> board ! nat i = ''''" if "i \<in> set (findEmptySpots board)" for i
    using that assms(1) by (simp add: findEmptySpots_iff)
  have gap: "i \<in> set (findEmptySpots board)" if "findTwoInARowGap board m winningConditions = Some i" for m i
    using findTwoInARowGap_empty[OF that] by (simp add: arrayAt_empty_iff)
  from assms(1) have "length board < 2 ^ 32" by simp
  from empties_below[OF this] have n53: "length (findEmptySpots board) < 2 ^ 53" by simp
  from random_pick[OF ne n53, of rnd] obtain k where
    k: "k < length (findEmptySpots board)"
       "arrayAt (findEmptySpots board)
          \<lfloor>roundBinary64 (drawValue rnd * real (length (findEmptySpots board)))\<rfloor>
          = Some (findEmptySpots board ! k)" by blast
  have easy: "\<exists>i\<in>set (findEmptySpots board). getBestMove rnd board ''easy'' winningConditions = Inr (Some i)"
    using k gap by (auto simp: getBestMove_easy[OF ne] split: option.splits)
  have "\<exists>i\<in>set (findEmptySpots board). getBestMove rnd board difficulty winningConditions = Inr (Some i)"
  proof (cases "difficulty = ''hard''")
    case True
    have "\<not> checkBoardWin board humanMarker winningConditions"
      "\<not> checkBoardWin board aiMarker winningConditions"
      using assms(2,3) by (simp_all add: checkBoardWin_completedLine humanMarker_def aiMarker_def)
    from minimaxIndex_node[OF this ne, of aiMarker 0] show ?thesis
      using True by (simp add: getBestMove_hard[OF ne])
  next
    case False
    show ?thesis
    proof (cases "difficulty = ''medium''")
      case True
      have "arrayAt board 4 = Some '''' \<Longrightarrow> 4 \<in> set (findEmptySpots board)"
        by (simp add: arrayAt_empty_iff)
      then show ?thesis
        using True k gap by (auto simp: getBestMove_medium[OF ne] split: option.splits)
    next
      case nm: False
      from easy show ?thesis by (simp add: getBestMove_other[OF ne False nm])
    qed
  qed
  with ok show ?thesis by blast
qed

theorem C10_move_is_empty_cell_witness:
  "length [''X'', ''O'', ''X'', ''O'', ''X'', '''', '''', '''', ''''] = 9
   \<and> \<not> completedLine [''X'', ''O'', ''X'', ''O'', ''X'', '''', '''', '''', ''''] ''X''
   \<and> \<not> completedLine [''X'', ''O'', ''X'', ''O'', ''X'', '''', '''', '''', ''''] ''O''
   \<and> '''' \<in> set [''X'', ''O'', ''X'', ''O'', ''X'', '''', '''', '''', '''']
   \<and> drawValue (drawOf 3 3) = 3 / 8
   \<and> (\<exists>i. getBestMove (drawOf 3 3) [''X'', ''O'', ''X'', ''O'', ''X'', '''', '''', '''', ''''] ''hard''
              winningConditions = Inr (Some i)
          \<and> 0 \<le> i \<and> i \<le> 8 \<and> [''X'', ''O'', ''X'', ''O'', ''X'', '''', '''', '''', ''''] ! nat i = '''')
   \<and> (\<exists>i. getBestMove (drawOf 2573485501354569 52)
              [''X'', '''', '''', '''', ''O'', '''', '''', '''', ''''] ''easy''
              winningConditions = Inr (Some i)
          \<and> 0 \<le> i \<and> i \<le> 8 \<and> [''X'', '''', '''', '''', ''O'', '''', '''', '''', ''''] ! nat i = '''')
   \<and> getBestMove (drawOf 3 3) [''X'', ''O'', ''X'', ''O'', ''X'', '''', '''', '''', ''''] ''easy''
         winningConditions = Inr (Some 6)"
proof -
  let ?b = "[''X'', ''O'', ''X'', ''O'', ''X'', '''', '''', '''', '''']"
  let ?d = "[''X'', '''', '''', '''', ''O'', '''', '''', '''', '''']"
  have l: "length ?b = 9" by simp
  have x: "\<not> completedLine ?b ''X''"
    by (simp add: completedLine_def winningConditions_def arrayAt_def)
  have o: "\<not> completedLine ?b ''O''"
    by (simp add: completedLine_def winningConditions_def arrayAt_def)
  have e: "'''' \<in> set ?b" by simp
  have ld: "length ?d = 9" by simp
  have xd: "\<not> completedLine ?d ''X''"
    by (simp add: completedLine_def winningConditions_def arrayAt_def)
  have od: "\<not> completedLine ?d ''O''"
    by (simp add: completedLine_def winningConditions_def arrayAt_def)
  have ed: "'''' \<in> set ?d" by simp
  have v: "drawValue (drawOf 3 3) = 3 / 8" by (simp add: drawValue_drawOf)
  have ne: "findEmptySpots ?b \<noteq> []" by (simp add: findEmptySpots_def)
  have es: "findEmptySpots ?b = [5, 6, 7, 8]" by (simp add: findEmptySpots_def)
  have g: "findTwoInARowGap ?b ''O'' winningConditions = None"
    by (simp add: winningConditions_def lineGap_def arrayAt_def)
  have "roundBinary64 (real (3::nat) / 2 ^ 3 * real (4::nat)) = real (3 * 4) / 2 ^ 3"
    by (rule pick_dyadic) simp_all
  then have r: "roundBinary64 (3 / 2) = 3 / 2" by simp
  have "\<lfloor>roundBinary64 (3 / 2)\<rfloor> = (1::int)" by (simp only: r) simp
  then have h: "\<lfloor>roundBinary64 (drawValue (drawOf 3 3) * real (length [5, 6, 7, 8 :: int]))\<rfloor> = 1"
    by (simp add: v)
  have a1: "arrayAt [5, 6, 7, 8] 1 = Some 6" by (simp add: arrayAt_def)
  have easy: "getBestMove (drawOf 3 3) ?b ''easy'' winningConditions = Inr (Some 6)"
    using getBestMove_easy[OF ne, of "drawOf 3 3" winningConditions]
    by (simp only: g es h a1 option.case)
  from l x o e v easy
    C10_move_is_empty_cell[OF l x o e, of "drawOf 3 3" "''hard''"]
    C10_move_is_empty_cell[OF ld xd od ed, of "drawOf 2573485501354569 52" "''easy''"]
  show ?thesis by (intro conjI)
qed


end
